theory Spec2Isabelle
  imports Complex_Main
begin

section \<open>Eigen values used by the solver\<close>

text \<open>
  The solver \<^verbatim>\<open>poselib::gp4ps\<close> (file \<^verbatim>\<open>PoseLib/gp4ps.cc\<close>) works on
  \<^verbatim>\<open>double\<close>s. The embedding computes over the reals: it captures the algebra of the
  solver, not the rounding of its floating-point operations.

  \<^verbatim>\<open>Eigen::Vector3d\<close> is a triple; \<^verbatim>\<open>v(0)\<close>, \<^verbatim>\<open>v(1)\<close>, \<^verbatim>\<open>v(2)\<close> are its selectors.
\<close>

datatype vec3 = Vec3 (c0: real) (c1: real) (c2: real)

text \<open>\<^verbatim>\<open>Eigen::Matrix3d\<close> (the type of \<^verbatim>\<open>pose.R\<close>), given by its three rows.\<close>

datatype mat3 = Mat3 (row0: vec3) (row1: vec3) (row2: vec3)

text \<open>
  \<^verbatim>\<open>R.data()\<close>: Eigen stores a matrix column by column unless told otherwise, so the nine
  coefficients come out as \<open>R00, R10, R20, R01, R11, R21, R02, R12, R22\<close>.
\<close>

definition data :: "mat3 \<Rightarrow> real list" where
  "data R =
     [c0 (row0 R), c0 (row1 R), c0 (row2 R),
      c1 (row0 R), c1 (row1 R), c1 (row2 R),
      c2 (row0 R), c2 (row1 R), c2 (row2 R)]"

text \<open>The other fixed-size matrices (8x13, 4x4, 3x4, 4x9, 3x9) are lists of rows.\<close>

type_synonym mat = "real list list"

definition is_mat :: "nat \<Rightarrow> nat \<Rightarrow> mat \<Rightarrow> bool" where
  "is_mat m n M = (length M = m \<and> list_all (\<lambda>r. length r = n) M)"

text \<open>\<^verbatim>\<open>M.block<r, c>(i, j)\<close>: the \<open>r\<close> by \<open>c\<close> block whose top left corner is at \<open>(i, j)\<close>.\<close>

definition block :: "mat \<Rightarrow> nat \<Rightarrow> nat \<Rightarrow> nat \<Rightarrow> nat \<Rightarrow> mat" where
  "block M i j r c = map (\<lambda>row. take c (drop j row)) (take r (drop i M))"

definition dot :: "real list \<Rightarrow> real list \<Rightarrow> real" where
  "dot u v = sum_list (map2 (*) u v)"

definition col :: "mat \<Rightarrow> nat \<Rightarrow> real list" where
  "col M j = map (\<lambda>r. r ! j) M"

definition ncols :: "mat \<Rightarrow> nat" where
  "ncols M = (case M of [] \<Rightarrow> 0 | r # _ \<Rightarrow> length r)"

text \<open>Matrix times vector, matrix times matrix, difference and unary minus.\<close>

definition mv :: "mat \<Rightarrow> real list \<Rightarrow> real list" where
  "mv M v = map (\<lambda>r. dot r v) M"

definition mat_mul :: "mat \<Rightarrow> mat \<Rightarrow> mat" where
  "mat_mul M N = map (\<lambda>r. map (\<lambda>j. dot r (col N j)) [0..<ncols N]) M"

definition mat_sub :: "mat \<Rightarrow> mat \<Rightarrow> mat" where
  "mat_sub M N = map2 (map2 (-)) M N"

definition mat_neg :: "mat \<Rightarrow> mat" where
  "mat_neg M = map (map uminus) M"

definition identity4 :: mat where
  "identity4 = [[1, 0, 0, 0], [0, 1, 0, 0], [0, 0, 1, 0], [0, 0, 0, 1]]"

text \<open>
  \<^verbatim>\<open>M.inverse()\<close> of a fixed-size 4x4 matrix. Eigen computes it from the cofactors of
  \<open>M\<close>, divided by the determinant; it makes no test for a singular matrix. Over the
  doubles a zero determinant gives non-finite coefficients; over the reals of HOL a
  division by zero gives zero. What the solver returns on a singular leading block is
  therefore outside what the embedding describes, and every statement that depends on
  the coefficients of the inverse assumes \<open>det4 M \<noteq> 0\<close>.
\<close>

fun det3 :: "mat \<Rightarrow> real" where
  "det3 [[a, b, c], [d, e, f], [g, h, k]] =
     a * (e * k - f * h) - b * (d * k - f * g) + c * (d * h - e * g)"
| "det3 _ = 0"

definition drop_nth :: "nat \<Rightarrow> 'a list \<Rightarrow> 'a list" where
  "drop_nth i xs = take i xs @ drop (Suc i) xs"

definition minor :: "mat \<Rightarrow> nat \<Rightarrow> nat \<Rightarrow> mat" where
  "minor M i j = map (drop_nth j) (drop_nth i M)"

definition cofactor :: "mat \<Rightarrow> nat \<Rightarrow> nat \<Rightarrow> real" where
  "cofactor M i j = (- 1) ^ (i + j) * det3 (minor M i j)"

definition det4 :: "mat \<Rightarrow> real" where
  "det4 M = sum_list (map (\<lambda>j. M ! 0 ! j * cofactor M 0 j) [0..<4])"

definition inverse4 :: "mat \<Rightarrow> mat" where
  "inverse4 M = map (\<lambda>i. map (\<lambda>j. cofactor M j i / det4 M) [0..<4]) [0..<4]"

section \<open>The solver\<close>

text \<open>
  \<^verbatim>\<open>CameraPose\<close>: the solver assigns the fields \<^verbatim>\<open>R\<close>, \<^verbatim>\<open>t\<close> and
  \<^verbatim>\<open>alpha\<close> of a fresh value.
\<close>

record CameraPose =
  pose_R :: mat3
  pose_t :: vec3
  pose_alpha :: real

text \<open>
  Neither \<^verbatim>\<open>std::vector::operator[]\<close> nor Eigen's column access checks its index in
  a release build. The embedding makes both reads explicit: a read outside the range is
  an error value, never an unspecified number.
\<close>

datatype error = InputIndexOutOfRange | SolutionColumnOutOfRange

definition elem_at :: "'a list \<Rightarrow> nat \<Rightarrow> 'a option" where
  "elem_at xs i = (if i < length xs then Some (xs ! i) else None)"

text \<open>The two rows that correspondence \<open>i\<close> contributes (lines 44 and 45).\<close>

definition row_even :: "vec3 \<Rightarrow> vec3 \<Rightarrow> vec3 \<Rightarrow> real list" where
  "row_even p_i x_i X_i =
     [c2 x_i, 0, - c0 x_i, - c0 p_i * c2 x_i + c2 p_i * c0 x_i,
      c0 X_i * c2 x_i, 0, - c0 X_i * c0 x_i,
      c1 X_i * c2 x_i, 0, - c1 X_i * c0 x_i,
      c2 X_i * c2 x_i, 0, - c2 X_i * c0 x_i]"

definition row_odd :: "vec3 \<Rightarrow> vec3 \<Rightarrow> vec3 \<Rightarrow> real list" where
  "row_odd p_i x_i X_i =
     [0, c2 x_i, - c1 x_i, - c1 p_i * c2 x_i + c2 p_i * c1 x_i,
      0, c0 X_i * c2 x_i, - c0 X_i * c1 x_i,
      0, c1 X_i * c2 x_i, - c1 X_i * c1 x_i,
      0, c2 X_i * c2 x_i, - c2 X_i * c1 x_i]"

text \<open>
  The loop of lines 40 to 46, over the indices it still has to visit. The first read in
  the body is \<^verbatim>\<open>x[i]\<close>, then \<^verbatim>\<open>p[i]\<close>, then \<^verbatim>\<open>X[i]\<close>.
\<close>

fun fill_rows ::
  "vec3 list \<Rightarrow> vec3 list \<Rightarrow> vec3 list \<Rightarrow> nat list \<Rightarrow> mat \<Rightarrow> error + mat" where
  "fill_rows p x X [] A = Inr A"
| "fill_rows p x X (i # js) A =
     (case elem_at x i of
        None \<Rightarrow> Inl InputIndexOutOfRange
      | Some x_i \<Rightarrow>
          (case elem_at p i of
             None \<Rightarrow> Inl InputIndexOutOfRange
           | Some p_i \<Rightarrow>
               (case elem_at X i of
                  None \<Rightarrow> Inl InputIndexOutOfRange
                | Some X_i \<Rightarrow>
                    fill_rows p x X js
                      (A[2 * i := row_even p_i x_i X_i, 2 * i + 1 := row_odd p_i x_i X_i]))))"

text \<open>
  \<^verbatim>\<open>A\<close> is declared without an initial value; the loop assigns each of its eight rows
  before anything reads them, so the embedding may start from zeros.
\<close>

definition build_A :: "vec3 list \<Rightarrow> vec3 list \<Rightarrow> vec3 list \<Rightarrow> error + mat" where
  "build_A p x X = fill_rows p x X [0..<4] (replicate 8 (replicate 13 0))"

text \<open>Line 48 and line 50.\<close>

definition leading_block :: "mat \<Rightarrow> mat" where
  "leading_block A = block A 0 0 4 4"

definition schur :: "mat \<Rightarrow> mat \<Rightarrow> mat" where
  "schur A B =
     mat_sub (block A 4 4 3 9) (mat_mul (mat_mul (block A 4 0 3 4) B) (block A 0 4 4 9))"

text \<open>Line 63: \<^verbatim>\<open>ts = -B * (A.block<4, 9>(0, 4) * vec(R))\<close>.\<close>

definition back_substitute :: "mat \<Rightarrow> mat \<Rightarrow> mat3 \<Rightarrow> real list" where
  "back_substitute A B R = mv (mat_neg B) (mv (block A 0 4 4 9) (data R))"

text \<open>The body of the loop of lines 60 to 67, for one column of \<^verbatim>\<open>solutions\<close>.\<close>

definition make_pose :: "(vec3 \<Rightarrow> mat3) \<Rightarrow> mat \<Rightarrow> mat \<Rightarrow> vec3 \<Rightarrow> CameraPose" where
  "make_pose cayley_param A B s =
     (let R = cayley_param s;
          ts = back_substitute A B R
      in \<lparr>pose_R = R, pose_t = Vec3 (ts ! 0) (ts ! 1) (ts ! 2), pose_alpha = ts ! 3\<rparr>)"

text \<open>
  \<^verbatim>\<open>solutions\<close> is a 3x8 matrix, given here by its columns \<open>0\<close> to \<open>7\<close>;
  \<^verbatim>\<open>solutions.col(i)\<close> is in range for \<open>0 \<le> i < 8\<close>.
\<close>

definition solutions_col :: "(nat \<Rightarrow> vec3) \<Rightarrow> int \<Rightarrow> vec3 option" where
  "solutions_col solutions i = (if 0 \<le> i \<and> i < 8 then Some (solutions (nat i)) else None)"

text \<open>
  The loop of lines 60 to 67 with its counter \<open>i\<close>, and the \<^verbatim>\<open>return n_sols\<close> that
  follows it. The result is the returned integer (or the error) and the output sequence.
\<close>

function push_poses ::
  "(vec3 \<Rightarrow> mat3) \<Rightarrow> mat \<Rightarrow> mat \<Rightarrow> (nat \<Rightarrow> vec3) \<Rightarrow> int \<Rightarrow> int \<Rightarrow> CameraPose list
     \<Rightarrow> (error + int) \<times> CameraPose list" where
  "push_poses cayley_param A B solutions n_sols i output =
     (if i < n_sols then
        (case solutions_col solutions i of
           None \<Rightarrow> (Inl SolutionColumnOutOfRange, output)
         | Some s \<Rightarrow>
             push_poses cayley_param A B solutions n_sols (i + 1)
               (output @ [make_pose cayley_param A B s]))
      else (Inr n_sols, output))"
  by pat_completeness auto
termination
  by (relation "measure (\<lambda>(cayley_param, A, B, solutions, n_sols, i, output). nat (n_sols - i))")
    auto

declare push_poses.simps [simp del]

text \<open>
  \<^verbatim>\<open>gp4ps\<close>. The three routines of the library \<^verbatim>\<open>re3q3\<close> are not part of the
  repository; the solver takes them as parameters:
  \<^item> \<open>rotation_to_3q3\<close> turns the 3x9 matrix \<open>AR\<close> into the coefficients of three
    quadratics (of some type \<open>'c\<close>);
  \<^item> \<open>re3q3\<close> returns the number of solutions it found and the matrix \<open>solutions\<close>;
  \<^item> \<open>cayley_param\<close> turns a column of \<open>solutions\<close> into a 3x3 matrix.
\<close>

definition gp4ps ::
  "(mat \<Rightarrow> 'c) \<Rightarrow> ('c \<Rightarrow> int \<times> (nat \<Rightarrow> vec3)) \<Rightarrow> (vec3 \<Rightarrow> mat3)
     \<Rightarrow> vec3 list \<Rightarrow> vec3 list \<Rightarrow> vec3 list \<Rightarrow> CameraPose list
     \<Rightarrow> (error + int) \<times> CameraPose list" where
  "gp4ps rotation_to_3q3 re3q3 cayley_param p x X output =
     (case build_A p x X of
        Inl e \<Rightarrow> (Inl e, output)
      | Inr A \<Rightarrow>
          (let B = inverse4 (leading_block A);
               AR = schur A B;
               coeffs = rotation_to_3q3 AR;
               (n_sols, solutions) = re3q3 coeffs
           in push_poses cayley_param A B solutions n_sols 0 output))"

text \<open>The poses that a call appends to an empty output sequence, as a set.\<close>

definition gp4ps_poses ::
  "(mat \<Rightarrow> 'c) \<Rightarrow> ('c \<Rightarrow> int \<times> (nat \<Rightarrow> vec3)) \<Rightarrow> (vec3 \<Rightarrow> mat3)
     \<Rightarrow> vec3 list \<Rightarrow> vec3 list \<Rightarrow> vec3 list \<Rightarrow> CameraPose set" where
  "gp4ps_poses rotation_to_3q3 re3q3 cayley_param p x X =
     set (snd (gp4ps rotation_to_3q3 re3q3 cayley_param p x X []))"

section \<open>The constraint the solver is written for\<close>

text \<open>
  The comment of line 34 states the purpose: a pose with
  \<^verbatim>\<open>scale*p + lambda*x = R*X + t\<close>. The comments of lines 41 and 42 give the two
  equations per correspondence in which \<open>lambda\<close> no longer occurs:
  \<^verbatim>\<open>xx * (R*X + t - scale*p) = 0\<close> with \<^verbatim>\<open>xx = [x3 0 -x1; 0 x3 -x2]\<close>.
\<close>

definition rotate :: "mat3 \<Rightarrow> vec3 \<Rightarrow> vec3" where
  "rotate R X_i =
     Vec3 (c0 (row0 R) * c0 X_i + c1 (row0 R) * c1 X_i + c2 (row0 R) * c2 X_i)
          (c0 (row1 R) * c0 X_i + c1 (row1 R) * c1 X_i + c2 (row1 R) * c2 X_i)
          (c0 (row2 R) * c0 X_i + c1 (row2 R) * c1 X_i + c2 (row2 R) * c2 X_i)"

definition offset :: "CameraPose \<Rightarrow> vec3 \<Rightarrow> vec3 \<Rightarrow> vec3" where
  "offset pose p_i X_i =
     Vec3 (c0 (rotate (pose_R pose) X_i) + c0 (pose_t pose) - pose_alpha pose * c0 p_i)
          (c1 (rotate (pose_R pose) X_i) + c1 (pose_t pose) - pose_alpha pose * c1 p_i)
          (c2 (rotate (pose_R pose) X_i) + c2 (pose_t pose) - pose_alpha pose * c2 p_i)"

definition residual_even :: "CameraPose \<Rightarrow> vec3 \<Rightarrow> vec3 \<Rightarrow> vec3 \<Rightarrow> real" where
  "residual_even pose p_i x_i X_i =
     c2 x_i * c0 (offset pose p_i X_i) - c0 x_i * c2 (offset pose p_i X_i)"

definition residual_odd :: "CameraPose \<Rightarrow> vec3 \<Rightarrow> vec3 \<Rightarrow> vec3 \<Rightarrow> real" where
  "residual_odd pose p_i x_i X_i =
     c2 x_i * c1 (offset pose p_i X_i) - c1 x_i * c2 (offset pose p_i X_i)"

definition on_ray :: "CameraPose \<Rightarrow> real \<Rightarrow> vec3 \<Rightarrow> vec3 \<Rightarrow> vec3 \<Rightarrow> bool" where
  "on_ray pose lambda p_i x_i X_i =
     (c0 (offset pose p_i X_i) = lambda * c0 x_i \<and>
      c1 (offset pose p_i X_i) = lambda * c1 x_i \<and>
      c2 (offset pose p_i X_i) = lambda * c2 x_i)"

text \<open>
  What is expected of the routines of \<^verbatim>\<open>re3q3\<close>. Roots are exact when every matrix
  rebuilt from one of the \<open>n_sols\<close> columns solves \<open>AR * vec(R) = 0\<close>. The routines
  solve \<open>AR\<close> over a set \<open>Rot\<close> of matrices when the number of roots is between 0 and 8
  and the matrices rebuilt from them are exactly the members of \<open>Rot\<close> that solve
  \<open>AR * vec(R) = 0\<close>.
\<close>

definition exact_roots :: "(vec3 \<Rightarrow> mat3) \<Rightarrow> mat \<Rightarrow> int \<Rightarrow> (nat \<Rightarrow> vec3) \<Rightarrow> bool" where
  "exact_roots cayley_param AR n_sols solutions =
     list_all (\<lambda>k. mv AR (data (cayley_param (solutions k))) = [0, 0, 0]) [0..<nat n_sols]"

definition solves ::
  "mat3 set \<Rightarrow> (mat \<Rightarrow> 'c) \<Rightarrow> ('c \<Rightarrow> int \<times> (nat \<Rightarrow> vec3)) \<Rightarrow> (vec3 \<Rightarrow> mat3) \<Rightarrow> mat \<Rightarrow> bool" where
  "solves Rot rotation_to_3q3 re3q3 cayley_param AR =
     (case re3q3 (rotation_to_3q3 AR) of
        (n_sols, solutions) \<Rightarrow>
          0 \<le> n_sols \<and> n_sols \<le> 8 \<and>
          (\<lambda>k. cayley_param (solutions k)) ` {..<nat n_sols} =
            {R \<in> Rot. mv AR (data R) = [0, 0, 0]})"

text \<open>
  The reduced matrix as the specification words it, from all of the rows 4 to 7:
  \<open>A[4:8, 4:13] - A[4:8, 0:4] * B * A[0:4, 4:13]\<close>.
\<close>

definition spec_schur :: "mat \<Rightarrow> mat \<Rightarrow> mat" where
  "spec_schur A B =
     mat_sub (block A 4 4 4 9) (mat_mul (mat_mul (block A 4 0 4 4) B) (block A 0 4 4 9))"

text \<open>Relabelling the correspondences: position \<open>i\<close> of the result holds element \<open>perm ! i\<close>.\<close>

definition permute :: "nat list \<Rightarrow> 'a list \<Rightarrow> 'a list" where
  "permute perm xs = map (\<lambda>i. xs ! i) perm"

definition is_perm4 :: "nat list \<Rightarrow> bool" where
  "is_perm4 perm = (length perm = 4 \<and> set perm = {0, 1, 2, 3})"

text \<open>A vector with its second component replaced.\<close>

definition with_c1 :: "vec3 \<Rightarrow> real \<Rightarrow> vec3" where
  "with_c1 v a = Vec3 (c0 v) a (c2 v)"

text \<open>
  The nine rotation coefficients of a row as the specification words them: for each of
  the three entries of \<open>X[i]\<close>, that entry times the triple.
\<close>

definition kron3 :: "vec3 \<Rightarrow> real list \<Rightarrow> real list" where
  "kron3 X_i triple = concat (map (\<lambda>e. map (\<lambda>c. e * c) triple) [c0 X_i, c1 X_i, c2 X_i])"

text \<open>
  Component \<open>i\<close> of \<open>- B * A[0:4, 4:13] * vec(R)\<close>, written with sums over the
  entries.
\<close>

definition spec_back :: "mat \<Rightarrow> mat \<Rightarrow> mat3 \<Rightarrow> nat \<Rightarrow> real" where
  "spec_back A B R i = - (\<Sum>a<4. \<Sum>b<9. B ! i ! a * A ! a ! (4 + b) * data R ! b)"

section \<open>A configuration to compute with\<close>

text \<open>
  Four correspondences built from the pose \<open>R = I\<close>, \<open>t = 0\<close>, \<open>alpha = 1\<close> with all
  depths equal to one: \<open>X[i] = p[i] + x[i]\<close>.
\<close>

definition sample_p :: "vec3 list" where
  "sample_p = [Vec3 1 0 0, Vec3 0 1 0, Vec3 0 0 1, Vec3 1 1 0]"

definition sample_x :: "vec3 list" where
  "sample_x = [Vec3 (- 1) 0 5, Vec3 1 (- 1) 5, Vec3 0 1 4, Vec3 0 0 6]"

definition sample_X :: "vec3 list" where
  "sample_X = [Vec3 0 0 5, Vec3 1 0 5, Vec3 0 1 5, Vec3 1 1 6]"

definition identity3 :: mat3 where
  "identity3 = Mat3 (Vec3 1 0 0) (Vec3 0 1 0) (Vec3 0 0 1)"

text \<open>
  Stand-ins for the routines of \<^verbatim>\<open>re3q3\<close>, to have values to compute with: the Cayley
  map from three parameters to a rotation matrix; a solver that passes \<open>AR\<close> on as it
  is and reports the root \<open>0\<close> (the identity rotation) when it solves the system, and no
  root otherwise; and a solver that reports the two roots \<open>(0, 0, 0)\<close> and
  \<open>(1, 0, 0)\<close> whatever the system is.
\<close>

definition cayley :: "vec3 \<Rightarrow> mat3" where
  "cayley s =
     (let a = c0 s; b = c1 s; c = c2 s; d = 1 + a * a + b * b + c * c
      in Mat3 (Vec3 ((1 + a * a - b * b - c * c) / d) (2 * (a * b - c) / d) (2 * (a * c + b) / d))
              (Vec3 (2 * (a * b + c) / d) ((1 - a * a + b * b - c * c) / d) (2 * (b * c - a) / d))
              (Vec3 (2 * (a * c - b) / d) (2 * (b * c + a) / d) ((1 - a * a - b * b + c * c) / d)))"

definition pass_on :: "mat \<Rightarrow> mat" where
  "pass_on AR = AR"

definition identity_solver :: "mat \<Rightarrow> int \<times> (nat \<Rightarrow> vec3)" where
  "identity_solver AR =
     (if mv AR (data identity3) = [0, 0, 0] then 1 else 0, \<lambda>k. Vec3 0 0 0)"

definition two_roots :: "mat \<Rightarrow> int \<times> (nat \<Rightarrow> vec3)" where
  "two_roots AR = (2, \<lambda>k. Vec3 (of_nat k) 0 0)"

text \<open>The coefficient matrix of the configuration.\<close>

definition sample_A :: mat where
  "sample_A =
    [[5, 0, 1, - 5, 0, 0, 0, 0, 0, 0, 25, 0, 5],
     [0, 5, 0, 0, 0, 0, 0, 0, 0, 0, 0, 25, 0],
     [5, 0, - 1, 0, 5, 0, - 1, 0, 0, 0, 25, 0, - 5],
     [0, 5, 1, - 5, 0, 5, 1, 0, 0, 0, 0, 25, 5],
     [4, 0, 0, 0, 0, 0, 0, 4, 0, 0, 20, 0, 0],
     [0, 4, - 1, 1, 0, 0, 0, 0, 4, - 1, 0, 20, - 5],
     [6, 0, 0, - 6, 6, 0, 0, 6, 0, 0, 36, 0, 0],
     [0, 6, 0, - 6, 0, 6, 0, 0, 6, 0, 0, 36, 0]]"

definition sample_B :: mat where
  "sample_B = [[1 / 5, 1 / 5, 0, - 1 / 5], [0, 1 / 5, 0, 0], [1, 1, - 1, - 1],
               [1 / 5, 2 / 5, - 1 / 5, - 2 / 5]]"

definition sample_AR :: mat where
  "sample_AR = [[0, 4, 4 / 5, 4, 0, 0, 0, 0, 0], [- 4, - 3, 1 / 5, 0, 4, - 1, 0, 0, 0],
                [0, - 6, 0, 6, 0, 0, 6, 0, 0]]"

definition identity_pose :: CameraPose where
  "identity_pose = \<lparr>pose_R = identity3, pose_t = Vec3 0 0 0, pose_alpha = 1\<rparr>"

text \<open>
  The same configuration with the second component of \<open>p[3]\<close> changed from 1 to 5,
  and with a fifth correspondence added.
\<close>

definition skewed_p :: "vec3 list" where
  "skewed_p = [Vec3 1 0 0, Vec3 0 1 0, Vec3 0 0 1, Vec3 1 5 0]"

definition longer_p :: "vec3 list" where
  "longer_p = sample_p @ [Vec3 7 7 7]"

definition longer_x :: "vec3 list" where
  "longer_x = sample_x @ [Vec3 1 2 3]"

definition longer_X :: "vec3 list" where
  "longer_X = sample_X @ [Vec3 9 8 7]"

text \<open>
  The coefficient matrix after the change of \<open>p[3]\<close>: only row 7 differs. And the
  configuration with the second component of \<open>p[0]\<close> changed from 0 to 7.
\<close>

definition skewed_A :: mat where
  "skewed_A = take 7 sample_A @ [[0, 6, 0, - 30, 0, 6, 0, 0, 6, 0, 0, 36, 0]]"

definition twisted_p :: "vec3 list" where
  "twisted_p = [Vec3 1 7 0, Vec3 0 1 0, Vec3 0 0 1, Vec3 1 1 0]"

text \<open>
  Two relabellings: one exchanges the correspondences 0 and 1, the other the
  correspondences 0 and 3.
\<close>

definition swap01 :: "nat list" where
  "swap01 = [1, 0, 2, 3]"

definition swap03 :: "nat list" where
  "swap03 = [3, 1, 2, 0]"

text \<open>
  The coefficient matrix of the configuration relabelled by \<open>swap01\<close>; the matrices of
  the configuration with \<open>p[0]\<close> changed; and the matrices of that configuration
  relabelled by \<open>swap03\<close>.
\<close>

definition swapped_A :: mat where
  "swapped_A = [sample_A ! 2, sample_A ! 3, sample_A ! 0, sample_A ! 1,
                sample_A ! 4, sample_A ! 5, sample_A ! 6, sample_A ! 7]"

definition twisted_A :: mat where
  "twisted_A = sample_A[1 := [0, 5, 0, - 35, 0, 0, 0, 0, 0, 0, 0, 25, 0]]"

definition twisted_B :: mat where
  "twisted_B = [[6 / 65, - 1 / 65, 7 / 65, 1 / 65],
      [- 7 / 65, - 1 / 65, 7 / 65, 14 / 65],
      [6 / 13, - 1 / 13, - 6 / 13, 1 / 13],
      [- 1 / 65, - 2 / 65, 1 / 65, 2 / 65]]"

definition twisted_AR :: mat where
  "twisted_AR = [[- 28 / 13, - 4 / 13, 24 / 65, 4, 0, 0, 0, 0, 0],
      [- 59 / 13, - 53 / 13, 6 / 65, 0, 4, - 1, 0, 0, 0],
      [42 / 13, 6 / 13, 42 / 65, 6, 0, 0, 6, 0, 0]]"

definition moved_A :: mat where
  "moved_A = [sample_A ! 6, sample_A ! 7, sample_A ! 2, sample_A ! 3,
              sample_A ! 4, sample_A ! 5, sample_A ! 0, twisted_A ! 1]"

definition moved_B :: mat where
  "moved_B = [[0, - 1 / 6, 1 / 5, 1 / 5],
      [- 1 / 6, 0, 1 / 5, 1 / 5],
      [0, - 5 / 6, 0, 1],
      [- 1 / 6, - 1 / 6, 1 / 5, 1 / 5]]"

definition moved_AR :: mat where
  "moved_AR = [[- 4, 0, 0, 4, 4, 0, 0, 4, 0],
      [0, - 4, 1, 5, 0, - 1, 5, - 4, 0],
      [- 5, 0, - 1, - 5, 5, 0, - 5, 5, 0]]"

section \<open>Matrices: dimensions, entries and products\<close>

lemma is_mat_length: "is_mat m n M \<Longrightarrow> length M = m"
  by (simp add: is_mat_def)

lemma is_mat_row: "is_mat m n M \<Longrightarrow> i < m \<Longrightarrow> length (M ! i) = n"
  by (simp add: is_mat_def list_all_length)

lemma is_matI: "length M = m \<Longrightarrow> (\<And>i. i < m \<Longrightarrow> length (M ! i) = n) \<Longrightarrow> is_mat m n M"
  by (simp add: is_mat_def list_all_length)

lemma dot_sum: "length u = length v \<Longrightarrow> dot u v = (\<Sum>k<length u. u ! k * v ! k)"
proof -
  assume len: "length u = length v"
  have "dot u v = (\<Sum>k = 0..<length (map2 (*) u v). map2 (*) u v ! k)"
    unfolding dot_def by (rule sum_list_sum_nth)
  also have "\<dots> = (\<Sum>k<length u. u ! k * v ! k)"
    using len by (intro sum.cong) (auto simp: lessThan_atLeast0)
  finally show ?thesis .
qed

lemma dot_append:
  "length u1 = length v1 \<Longrightarrow> dot (u1 @ u2) (v1 @ v2) = dot u1 v1 + dot u2 v2"
  by (simp add: dot_def)

lemma dot_uminus: "dot (map uminus u) v = - dot u v"
proof (induction u arbitrary: v)
  case Nil
  then show ?case by (simp add: dot_def)
next
  case (Cons a u)
  then show ?case by (cases v) (simp_all add: dot_def)
qed

lemma mv_length: "length (mv M v) = length M"
  by (simp add: mv_def)

lemma mv_nth: "i < length M \<Longrightarrow> mv M v ! i = dot (M ! i) v"
  by (simp add: mv_def)

lemma mv_mat_neg: "mv (mat_neg M) v = map uminus (mv M v)"
  by (simp add: mv_def mat_neg_def dot_uminus)

lemma ncols_is_mat: "is_mat m n M \<Longrightarrow> 0 < m \<Longrightarrow> ncols M = n"
  by (cases M) (simp_all add: is_mat_def ncols_def)

lemma mat_mul_entry:
  assumes "is_mat m n M" "is_mat n q N" "0 < n" "i < m" "j < q"
  shows "mat_mul M N ! i ! j = (\<Sum>k<n. M ! i ! k * N ! k ! j)"
proof -
  have nc: "ncols N = q" using assms by (simp add: ncols_is_mat)
  have "mat_mul M N ! i ! j = dot (M ! i) (col N j)"
    using assms nc by (simp add: mat_mul_def is_mat_length)
  also have "\<dots> = (\<Sum>k<length (M ! i). M ! i ! k * col N j ! k)"
    using assms by (intro dot_sum) (simp add: is_mat_row col_def is_mat_length)
  also have "\<dots> = (\<Sum>k<n. M ! i ! k * N ! k ! j)"
    using assms by (simp add: is_mat_row col_def is_mat_length)
  finally show ?thesis .
qed

lemma mat_mul_is_mat:
  assumes "is_mat m n M" "is_mat n q N" "0 < n"
  shows "is_mat m q (mat_mul M N)"
  using assms by (simp add: is_mat_def mat_mul_def list_all_length ncols_is_mat[OF assms(2)])

lemma mv_mat_mul:
  assumes "is_mat m n M" "is_mat n q N" "0 < n" "length w = q"
  shows "mv M (mv N w) = mv (mat_mul M N) w"
proof (rule nth_equalityI)
  show "length (mv M (mv N w)) = length (mv (mat_mul M N) w)"
    by (simp add: mv_length mat_mul_def)
next
  fix i assume "i < length (mv M (mv N w))"
  then have i: "i < m" using assms by (simp add: mv_length is_mat_length)
  have P: "is_mat m q (mat_mul M N)" using assms by (simp add: mat_mul_is_mat)
  have "mv M (mv N w) ! i = dot (M ! i) (mv N w)"
    using i assms by (simp add: mv_nth is_mat_length)
  also have "\<dots> = (\<Sum>k<n. M ! i ! k * mv N w ! k)"
    using i assms dot_sum[of "M ! i" "mv N w"] by (simp add: is_mat_row mv_length is_mat_length)
  also have "\<dots> = (\<Sum>k<n. M ! i ! k * (\<Sum>l<q. N ! k ! l * w ! l))"
    using assms by (intro sum.cong refl) (simp add: mv_nth is_mat_length dot_sum is_mat_row)
  also have "\<dots> = (\<Sum>k<n. \<Sum>l<q. M ! i ! k * N ! k ! l * w ! l)"
    by (simp add: sum_distrib_left mult.assoc)
  also have "\<dots> = (\<Sum>l<q. \<Sum>k<n. M ! i ! k * N ! k ! l * w ! l)"
    by (rule sum.swap)
  also have "\<dots> = (\<Sum>l<q. mat_mul M N ! i ! l * w ! l)"
    using assms i by (intro sum.cong refl) (simp add: mat_mul_entry sum_distrib_right)
  also have "\<dots> = dot (mat_mul M N ! i) w"
    using dot_sum[of "mat_mul M N ! i" w] is_mat_row[OF P i] assms by simp
  also have "\<dots> = mv (mat_mul M N) w ! i"
    using i P by (simp add: mv_nth is_mat_length)
  finally show "mv M (mv N w) ! i = mv (mat_mul M N) w ! i" .
qed

lemma dot_diff:
  assumes "length u = length w" "length v = length w"
  shows "dot (map2 (-) u v) w = dot u w - dot v w"
proof -
  have "dot (map2 (-) u v) w = (\<Sum>k<length w. (u ! k - v ! k) * w ! k)"
    using assms dot_sum[of "map2 (-) u v" w] by simp
  also have "\<dots> = dot u w - dot v w"
    using assms by (simp add: dot_sum left_diff_distrib sum_subtractf)
  finally show ?thesis .
qed

lemma mv_mat_sub:
  assumes "is_mat m n M" "is_mat m n N" "length w = n"
  shows "mv (mat_sub M N) w = map2 (-) (mv M w) (mv N w)"
proof (rule nth_equalityI)
  show "length (mv (mat_sub M N) w) = length (map2 (-) (mv M w) (mv N w))"
    using assms by (simp add: mv_length mat_sub_def is_mat_length)
next
  fix i assume "i < length (mv (mat_sub M N) w)"
  then have i: "i < m" using assms by (simp add: mv_length mat_sub_def is_mat_length)
  then show "mv (mat_sub M N) w ! i = map2 (-) (mv M w) (mv N w) ! i"
    using assms by (simp add: mv_nth mat_sub_def is_mat_length mv_length is_mat_row dot_diff)
qed

lemma mv_identity4: "length w = 4 \<Longrightarrow> mv identity4 w = w"
proof -
  assume "length w = 4"
  then obtain a b c d where "w = [a, b, c, d]"
    by (auto simp: numeral_eq_Suc length_Suc_conv)
  then show ?thesis by (simp add: mv_def identity4_def dot_def)
qed

lemma block_is_mat:
  assumes "is_mat m n M" "i + r \<le> m" "j + c \<le> n"
  shows "is_mat r c (block M i j r c)"
  using assms by (auto simp add: is_mat_def block_def list_all_length)

lemma block_nth:
  assumes "is_mat m n M" "i + r \<le> m" "k < r"
  shows "block M i j r c ! k = take c (drop j (M ! (i + k)))"
  using assms by (simp add: block_def is_mat_def)

section \<open>The inverse of a 4x4 matrix\<close>

lemma upt4: "[0..<4] = [0, 1, 2, 3]"
  by (simp add: upt_rec)

lemma mat44_explicit:
  assumes "is_mat 4 4 M"
  obtains a0 a1 a2 a3 b0 b1 b2 b3 d0 d1 d2 d3 e0 e1 e2 e3 where
    "M = [[a0, a1, a2, a3], [b0, b1, b2, b3], [d0, d1, d2, d3], [e0, e1, e2, e3]]"
proof -
  have len4: "\<exists>a b c d. r = [a, b, c, d]" if "length r = 4" for r :: "'a list"
    using that by (auto simp: numeral_eq_Suc length_Suc_conv)
  from assms obtain r0 r1 r2 r3 where M: "M = [r0, r1, r2, r3]"
    using len4[of M] by (auto simp: is_mat_def)
  with assms have "length r0 = 4" "length r1 = 4" "length r2 = 4" "length r3 = 4"
    by (simp_all add: is_mat_def)
  then show thesis
    using len4[of r0] len4[of r1] len4[of r2] len4[of r3] M that by blast
qed

lemma det4_explicit:
  "det4 [[a0, a1, a2, a3], [b0, b1, b2, b3], [d0, d1, d2, d3], [e0, e1, e2, e3]] =
     a0 * (b1 * (d2 * e3 - d3 * e2) - b2 * (d1 * e3 - d3 * e1) + b3 * (d1 * e2 - d2 * e1))
   - a1 * (b0 * (d2 * e3 - d3 * e2) - b2 * (d0 * e3 - d3 * e0) + b3 * (d0 * e2 - d2 * e0))
   + a2 * (b0 * (d1 * e3 - d3 * e1) - b1 * (d0 * e3 - d3 * e0) + b3 * (d0 * e1 - d1 * e0))
   - a3 * (b0 * (d1 * e2 - d2 * e1) - b1 * (d0 * e2 - d2 * e0) + b2 * (d0 * e1 - d1 * e0))"
  by (simp add: det4_def upt4 cofactor_def minor_def drop_nth_def algebra_simps)

lemma inverse4_left_explicit:
  assumes M_def: "M = [[a0, a1, a2, a3], [b0, b1, b2, b3], [d0, d1, d2, d3], [e0, e1, e2, e3]]"
  assumes "det4 M \<noteq> 0"
  shows "mat_mul (inverse4 M) M = identity4"
proof -
  define D where "D = det4 M"
  have D: "D \<noteq> 0" using assms D_def by simp
  have Dx: "D = a0 * (b1 * (d2 * e3 - d3 * e2) - b2 * (d1 * e3 - d3 * e1) + b3 * (d1 * e2 - d2 * e1))
   - a1 * (b0 * (d2 * e3 - d3 * e2) - b2 * (d0 * e3 - d3 * e0) + b3 * (d0 * e2 - d2 * e0))
   + a2 * (b0 * (d1 * e3 - d3 * e1) - b1 * (d0 * e3 - d3 * e0) + b3 * (d0 * e1 - d1 * e0))
   - a3 * (b0 * (d1 * e2 - d2 * e1) - b1 * (d0 * e2 - d2 * e0) + b2 * (d0 * e1 - d1 * e0))"
    unfolding D_def M_def by (rule det4_explicit)
  have inv: "inverse4 M = map (\<lambda>i. map (\<lambda>j. cofactor M j i / D) [0..<4]) [0..<4]"
    by (simp add: inverse4_def D_def)
  show ?thesis
    unfolding inv
    apply (simp add: mat_mul_def upt4 ncols_def col_def dot_def identity4_def M_def cofactor_def minor_def drop_nth_def)
    apply (simp add: D divide_simps)
    apply (intro conjI)
    apply (simp_all add: Dx algebra_simps)
    done
qed

lemma inverse4_right_explicit:
  assumes M_def: "M = [[a0, a1, a2, a3], [b0, b1, b2, b3], [d0, d1, d2, d3], [e0, e1, e2, e3]]"
  assumes "det4 M \<noteq> 0"
  shows "mat_mul M (inverse4 M) = identity4"
proof -
  define D where "D = det4 M"
  have D: "D \<noteq> 0" using assms D_def by simp
  have Dx: "D = a0 * (b1 * (d2 * e3 - d3 * e2) - b2 * (d1 * e3 - d3 * e1) + b3 * (d1 * e2 - d2 * e1))
   - a1 * (b0 * (d2 * e3 - d3 * e2) - b2 * (d0 * e3 - d3 * e0) + b3 * (d0 * e2 - d2 * e0))
   + a2 * (b0 * (d1 * e3 - d3 * e1) - b1 * (d0 * e3 - d3 * e0) + b3 * (d0 * e1 - d1 * e0))
   - a3 * (b0 * (d1 * e2 - d2 * e1) - b1 * (d0 * e2 - d2 * e0) + b2 * (d0 * e1 - d1 * e0))"
    unfolding D_def M_def by (rule det4_explicit)
  have inv: "inverse4 M = map (\<lambda>i. map (\<lambda>j. cofactor M j i / D) [0..<4]) [0..<4]"
    by (simp add: inverse4_def D_def)
  show ?thesis
    unfolding inv
    apply (simp add: mat_mul_def upt4 ncols_def col_def dot_def identity4_def M_def cofactor_def minor_def drop_nth_def)
    apply (simp add: D divide_simps)
    apply (intro conjI)
    apply (simp_all add: Dx algebra_simps)
    done
qed

lemma inverse4_is_mat: "is_mat 4 4 (inverse4 M)"
  by (simp add: inverse4_def is_mat_def upt4)

lemma inverse4_left: "is_mat 4 4 M \<Longrightarrow> det4 M \<noteq> 0 \<Longrightarrow> mat_mul (inverse4 M) M = identity4"
  by (erule mat44_explicit) (rule inverse4_left_explicit)

lemma inverse4_right: "is_mat 4 4 M \<Longrightarrow> det4 M \<noteq> 0 \<Longrightarrow> mat_mul M (inverse4 M) = identity4"
  by (erule mat44_explicit) (rule inverse4_right_explicit)

section \<open>The rows of the coefficient matrix and the two eliminations\<close>

lemma dot_uminus_right: "dot u (map uminus v) = - dot u v"
proof (induction u arbitrary: v)
  case Nil
  then show ?case by (simp add: dot_def)
next
  case (Cons a u)
  then show ?case by (cases v) (simp_all add: dot_def)
qed

lemma mv_uminus: "mv M (map uminus v) = map uminus (mv M v)"
  by (simp add: mv_def dot_uminus_right)

lemma build_A_rows:
  assumes "4 \<le> length p" "4 \<le> length x" "4 \<le> length X"
  shows "build_A p x X = Inr
    [row_even (p ! 0) (x ! 0) (X ! 0), row_odd (p ! 0) (x ! 0) (X ! 0),
     row_even (p ! 1) (x ! 1) (X ! 1), row_odd (p ! 1) (x ! 1) (X ! 1),
     row_even (p ! 2) (x ! 2) (X ! 2), row_odd (p ! 2) (x ! 2) (X ! 2),
     row_even (p ! 3) (x ! 3) (X ! 3), row_odd (p ! 3) (x ! 3) (X ! 3)]"
  using assms
  by (auto simp add: build_A_def upt_rec elem_at_def numeral_eq_Suc)

lemma build_A_short:
  assumes "length p < 4 \<or> length x < 4 \<or> length X < 4"
  shows "build_A p x X = Inl InputIndexOutOfRange"
  using assms
  by (auto simp add: build_A_def upt_rec elem_at_def split: option.splits)

lemma build_A_Inr_lengths:
  assumes "build_A p x X = Inr A"
  shows "4 \<le> length p \<and> 4 \<le> length x \<and> 4 \<le> length X"
proof (rule ccontr)
  assume "\<not> ?thesis"
  then have "length p < 4 \<or> length x < 4 \<or> length X < 4" by auto
  from build_A_short[OF this] assms show False by simp
qed

lemma build_A_is_mat:
  assumes "build_A p x X = Inr A"
  shows "is_mat 8 13 A"
proof -
  from build_A_Inr_lengths[OF assms] have "4 \<le> length p" "4 \<le> length x" "4 \<le> length X"
    by auto
  from build_A_rows[OF this] assms show ?thesis
    by (auto simp: is_mat_def row_even_def row_odd_def)
qed

lemma leading_block_is_mat: "is_mat 8 13 A \<Longrightarrow> is_mat 4 4 (leading_block A)"
  unfolding leading_block_def by (rule block_is_mat[where m = 8 and n = 13]) simp_all

lemma back_top:
  assumes A: "is_mat 8 13 A"
    and det: "det4 (leading_block A) \<noteq> 0"
    and B: "B = inverse4 (leading_block A)"
    and v: "length v = 9"
  shows "mv (leading_block A) (mv (mat_neg B) (mv (block A 0 4 4 9) v))
         = map uminus (mv (block A 0 4 4 9) v)"
proof -
  let ?L = "leading_block A"
  let ?w = "mv (block A 0 4 4 9) v"
  have L: "is_mat 4 4 ?L" using A by (rule leading_block_is_mat)
  have Bm: "is_mat 4 4 B" unfolding B by (rule inverse4_is_mat)
  have w: "length ?w = 4" by (simp add: mv_length block_def) (use A in \<open>simp add: is_mat_def\<close>)
  have "mv ?L (mv (mat_neg B) ?w) = mv ?L (mv B (map uminus ?w))"
    by (simp add: mv_mat_neg mv_uminus)
  also have "\<dots> = mv (mat_mul ?L B) (map uminus ?w)"
    using L Bm w by (intro mv_mat_mul[where n = 4 and q = 4]) simp_all
  also have "\<dots> = mv identity4 (map uminus ?w)"
    using inverse4_right[OF L det] B by simp
  also have "\<dots> = map uminus ?w"
    using w by (intro mv_identity4) simp
  finally show ?thesis .
qed

lemma back_substitute_length: "length (back_substitute A (inverse4 M) R) = 4"
  by (simp add: back_substitute_def mv_length mat_neg_def inverse4_def)

lemma data_length: "length (data R) = 9"
  by (simp add: data_def)

lemma row_split:
  assumes A: "is_mat 8 13 A" and i: "i < 8" and ts: "length ts = 4"
  shows "dot (A ! i) (ts @ v) = dot (take 4 (A ! i)) ts + dot (drop 4 (A ! i)) v"
proof -
  have "dot (take 4 (A ! i) @ drop 4 (A ! i)) (ts @ v)
        = dot (take 4 (A ! i)) ts + dot (drop 4 (A ! i)) v"
    using is_mat_row[OF A i] ts by (intro dot_append) simp
  then show ?thesis by simp
qed

lemma rows_top:
  assumes A: "is_mat 8 13 A"
    and det: "det4 (leading_block A) \<noteq> 0"
    and i: "i < 4"
  shows "dot (A ! i) (back_substitute A (inverse4 (leading_block A)) R @ data R) = 0"
proof -
  let ?B = "inverse4 (leading_block A)"
  let ?ts = "back_substitute A ?B R"
  let ?v = "data R"
  have ts: "length ?ts = 4" by (rule back_substitute_length)
  have L: "leading_block A ! i = take 4 (A ! i)"
    unfolding leading_block_def using block_nth[OF A, of 0 4 i 0 4] i by simp
  have R9: "block A 0 4 4 9 ! i = drop 4 (A ! i)"
    using block_nth[OF A, of 0 4 i 4 9] i is_mat_row[OF A, of i] by simp
  have top: "mv (leading_block A) ?ts = map uminus (mv (block A 0 4 4 9) ?v)"
    unfolding back_substitute_def by (rule back_top[OF A det refl data_length])
  have l4: "length (leading_block A) = 4" "length (block A 0 4 4 9) = 4"
    using A by (simp_all add: leading_block_def block_def is_mat_def)
  have "dot (take 4 (A ! i)) ?ts = mv (leading_block A) ?ts ! i"
    using i l4 by (simp add: mv_nth L)
  also have "\<dots> = - dot (drop 4 (A ! i)) ?v"
    using i l4 by (simp add: top mv_length mv_nth R9)
  finally show ?thesis
    using row_split[OF A _ ts, of i ?v] i by simp
qed

lemma rows_bottom:
  assumes A: "is_mat 8 13 A" and i: "i < 3"
  shows "dot (A ! (4 + i)) (back_substitute A (inverse4 M) R @ data R)
         = mv (schur A (inverse4 M)) (data R) ! i"
proof -
  let ?B = "inverse4 M"
  let ?ts = "back_substitute A ?B R"
  let ?v = "data R"
  let ?A40 = "block A 4 0 3 4" and ?A44 = "block A 4 4 3 9" and ?A04 = "block A 0 4 4 9"
  have ts: "length ?ts = 4" by (rule back_substitute_length)
  have Bm: "is_mat 4 4 ?B" by (rule inverse4_is_mat)
  have m40: "is_mat 3 4 ?A40" by (rule block_is_mat[OF A]) simp_all
  have m44: "is_mat 3 9 ?A44" by (rule block_is_mat[OF A]) simp_all
  have m04: "is_mat 4 9 ?A04" by (rule block_is_mat[OF A]) simp_all
  have m40B: "is_mat 3 4 (mat_mul ?A40 ?B)" by (rule mat_mul_is_mat[OF m40 Bm]) simp
  have prod: "is_mat 3 9 (mat_mul (mat_mul ?A40 ?B) ?A04)"
    by (rule mat_mul_is_mat[OF m40B m04]) simp
  have r40: "?A40 ! i = take 4 (A ! (4 + i))"
    using block_nth[OF A, of 4 3 i 0 4] i by simp
  have r44: "?A44 ! i = drop 4 (A ! (4 + i))"
    using block_nth[OF A, of 4 3 i 4 9] i is_mat_row[OF A, of "4 + i"] by simp
  have "mv ?A40 ?ts = map uminus (mv ?A40 (mv ?B (mv ?A04 ?v)))"
    by (simp add: back_substitute_def mv_mat_neg mv_uminus)
  also have "mv ?A40 (mv ?B (mv ?A04 ?v)) = mv (mat_mul ?A40 ?B) (mv ?A04 ?v)"
    using m04 by (intro mv_mat_mul[OF m40 Bm]) (simp_all add: mv_length is_mat_length)
  also have "\<dots> = mv (mat_mul (mat_mul ?A40 ?B) ?A04) ?v"
    by (intro mv_mat_mul[OF m40B m04]) (simp_all add: data_length)
  finally have bottom: "mv ?A40 ?ts = map uminus (mv (mat_mul (mat_mul ?A40 ?B) ?A04) ?v)" .
  have "mv (schur A ?B) ?v ! i
        = map2 (-) (mv ?A44 ?v) (mv (mat_mul (mat_mul ?A40 ?B) ?A04) ?v) ! i"
    unfolding schur_def by (simp add: mv_mat_sub[OF m44 prod data_length])
  also have "\<dots> = dot (drop 4 (A ! (4 + i))) ?v - mv (mat_mul (mat_mul ?A40 ?B) ?A04) ?v ! i"
    using i m44 prod by (simp add: mv_length is_mat_length mv_nth r44)
  also have "mv (mat_mul (mat_mul ?A40 ?B) ?A04) ?v ! i = - (mv ?A40 ?ts ! i)"
    using i prod by (simp add: bottom mv_length is_mat_length)
  also have "mv ?A40 ?ts ! i = dot (take 4 (A ! (4 + i))) ?ts"
    using i m40 by (simp add: mv_nth is_mat_length r40)
  finally show ?thesis
    using row_split[OF A _ ts, of "4 + i" ?v] i by simp
qed

section \<open>The loop over the solutions\<close>

lemma push_poses_closed:
  assumes "0 \<le> i" "i \<le> 8"
  shows "push_poses cayley_param A B solutions n_sols i out =
     (if n_sols \<le> 8 then Inr n_sols else Inl SolutionColumnOutOfRange,
      out @ map (\<lambda>k. make_pose cayley_param A B (solutions k)) [nat i..<nat (min n_sols 8)])"
  using assms
proof (induction cayley_param A B solutions n_sols i out rule: push_poses.induct)
  case (1 cayley_param A B solutions n_sols i out)
  show ?case
  proof (cases "i < n_sols")
    case False
    with "1.prems" show ?thesis by (simp add: push_poses.simps[of _ _ _ _ n_sols i])
  next
    case lt: True
    show ?thesis
    proof (cases "i < 8")
      case False
      with "1.prems" lt have "i = 8" "8 < n_sols" by auto
      then show ?thesis
        by (simp add: push_poses.simps[of _ _ _ _ n_sols 8] solutions_col_def)
    next
      case True
      with "1.prems" have col: "solutions_col solutions i = Some (solutions (nat i))"
        by (simp add: solutions_col_def)
      have up: "[nat i..<nat (min n_sols 8)] = nat i # [nat (i + 1)..<nat (min n_sols 8)]"
      proof -
        have "nat (i + 1) = Suc (nat i)" using "1.prems" by linarith
        moreover have "nat i < nat (min n_sols 8)" using True lt "1.prems" by linarith
        ultimately show ?thesis by (simp add: upt_conv_Cons)
      qed
      have "push_poses cayley_param A B solutions n_sols i out =
            push_poses cayley_param A B solutions n_sols (i + 1)
              (out @ [make_pose cayley_param A B (solutions (nat i))])"
        using lt col by (simp add: push_poses.simps[of _ _ _ _ n_sols i])
      also have "\<dots> = (if n_sols \<le> 8 then Inr n_sols else Inl SolutionColumnOutOfRange,
          (out @ [make_pose cayley_param A B (solutions (nat i))]) @
            map (\<lambda>k. make_pose cayley_param A B (solutions k)) [nat (i + 1)..<nat (min n_sols 8)])"
        using "1.IH"[OF lt col] True "1.prems" by simp
      finally show ?thesis by (simp add: up)
    qed
  qed
qed

section \<open>The whole call\<close>

lemma gp4ps_closed:
  assumes "build_A p x X = Inr A"
    and "solver (reduce (schur A (inverse4 (leading_block A)))) = (n_sols, solutions)"
  shows "gp4ps reduce solver cayley_param p x X out =
     (if n_sols \<le> 8 then Inr n_sols else Inl SolutionColumnOutOfRange,
      out @ map (\<lambda>k. make_pose cayley_param A (inverse4 (leading_block A)) (solutions k))
              [0..<nat (min n_sols 8)])"
  using assms push_poses_closed[of 0 cayley_param A "inverse4 (leading_block A)" solutions n_sols out]
  by (simp add: gp4ps_def)

lemma gp4ps_short:
  assumes "length p < 4 \<or> length x < 4 \<or> length X < 4"
  shows "gp4ps reduce solver cayley_param p x X out = (Inl InputIndexOutOfRange, out)"
  using build_A_short[OF assms] by (simp add: gp4ps_def)

lemma gp4ps_frame:
  "gp4ps reduce solver cayley_param p x X out =
     (fst (gp4ps reduce solver cayley_param p x X []),
      out @ snd (gp4ps reduce solver cayley_param p x X []))"
proof (cases "build_A p x X")
  case (Inl e)
  then show ?thesis by (simp add: gp4ps_def)
next
  case (Inr A)
  obtain n_sols solutions
    where s: "solver (reduce (schur A (inverse4 (leading_block A)))) = (n_sols, solutions)"
    by (cases "solver (reduce (schur A (inverse4 (leading_block A))))") blast
  show ?thesis
    by (simp add: gp4ps_closed[where solver = solver and reduce = reduce, OF Inr s])
qed

lemma block_last_row:
  assumes "length upper = 7" "i + r \<le> 7"
  shows "block (upper @ [r7]) i j r c = block (upper @ [r7']) i j r c"
  using assms by (simp add: block_def)

lemma gp4ps_first_seven_rows:
  assumes A: "build_A p x X = Inr (upper @ [r7])"
    and A': "build_A p' x' X' = Inr (upper @ [r7'])"
    and upper: "length upper = 7"
  shows "gp4ps reduce solver cayley_param p' x' X' out = gp4ps reduce solver cayley_param p x X out"
proof -
  let ?A = "upper @ [r7]" and ?A' = "upper @ [r7']"
  have L: "leading_block ?A' = leading_block ?A"
    unfolding leading_block_def using upper by (intro block_last_row) simp_all
  have S: "schur ?A' B = schur ?A B" for B
    unfolding schur_def
    using block_last_row[OF upper, of 4 3 r7' 4 9 r7] block_last_row[OF upper, of 4 3 r7' 0 4 r7]
      block_last_row[OF upper, of 0 4 r7' 4 9 r7] by simp
  have P: "make_pose cayley_param ?A' B s = make_pose cayley_param ?A B s" for B s
    unfolding make_pose_def back_substitute_def
    using block_last_row[OF upper, of 0 4 r7' 4 9 r7] by simp
  obtain n_sols solutions
    where s: "solver (reduce (schur ?A (inverse4 (leading_block ?A)))) = (n_sols, solutions)"
    by (cases "solver (reduce (schur ?A (inverse4 (leading_block ?A))))") blast
  then have s': "solver (reduce (schur ?A' (inverse4 (leading_block ?A')))) = (n_sols, solutions)"
    by (simp add: L S)
  show ?thesis
    by (simp add: gp4ps_closed[where solver = solver and reduce = reduce, OF A s]
        gp4ps_closed[where solver = solver and reduce = reduce, OF A' s'] L P)
qed

lemma build_A_take:
  assumes "4 \<le> length p" "4 \<le> length x" "4 \<le> length X"
  shows "build_A (take 4 p) (take 4 x) (take 4 X) = build_A p x X"
  using assms build_A_rows[of "take 4 p" "take 4 x" "take 4 X"] by (simp add: build_A_rows)

lemma spec_back_eq:
  assumes A: "is_mat 8 13 A" and B: "is_mat 4 4 B" and i: "i < 4"
  shows "back_substitute A B R ! i = spec_back A B R i"
proof -
  let ?A04 = "block A 0 4 4 9"
  have m04: "is_mat 4 9 ?A04" by (rule block_is_mat[OF A]) simp_all
  have ent: "?A04 ! a ! b = A ! a ! (4 + b)" if "a < 4" "b < 9" for a b
    using block_nth[OF A, of 0 4 a 4 9] that is_mat_row[OF A, of a] by simp
  have "back_substitute A B R ! i = - dot (B ! i) (mv ?A04 (data R))"
    using i B by (simp add: back_substitute_def mv_mat_neg mv_length mv_nth is_mat_length)
  also have "dot (B ! i) (mv ?A04 (data R)) = (\<Sum>a<4. B ! i ! a * mv ?A04 (data R) ! a)"
    using dot_sum[of "B ! i" "mv ?A04 (data R)"] is_mat_row[OF B i] m04
    by (simp add: mv_length is_mat_length)
  also have "\<dots> = (\<Sum>a<4. B ! i ! a * (\<Sum>b<9. A ! a ! (4 + b) * data R ! b))"
  proof (intro sum.cong refl)
    fix a :: nat assume "a \<in> {..<4}"
    then have a: "a < 4" by simp
    have "mv ?A04 (data R) ! a = dot (?A04 ! a) (data R)"
      using a m04 by (simp add: mv_nth is_mat_length)
    also have "\<dots> = (\<Sum>b<9. ?A04 ! a ! b * data R ! b)"
      using dot_sum[of "?A04 ! a" "data R"] is_mat_row[OF m04 a] by (simp add: data_length)
    also have "\<dots> = (\<Sum>b<9. A ! a ! (4 + b) * data R ! b)"
      using a by (intro sum.cong refl) (simp add: ent)
    finally show "B ! i ! a * mv ?A04 (data R) ! a
                  = B ! i ! a * (\<Sum>b<9. A ! a ! (4 + b) * data R ! b)" by simp
  qed
  also have "\<dots> = (\<Sum>a<4. \<Sum>b<9. B ! i ! a * A ! a ! (4 + b) * data R ! b)"
    by (simp add: sum_distrib_left mult.assoc)
  finally show ?thesis by (simp add: spec_back_def)
qed

section \<open>The configuration, computed\<close>

lemma sample_build: "build_A sample_p sample_x sample_X = Inr sample_A"
  by (simp add: build_A_rows sample_p_def sample_x_def sample_X_def sample_A_def row_even_def row_odd_def)

lemma sample_det: "det4 (leading_block sample_A) = 125"
  by (simp add: sample_A_def leading_block_def block_def det4_def upt4 cofactor_def minor_def drop_nth_def)

lemma sample_inverse: "inverse4 (leading_block sample_A) = sample_B"
  unfolding inverse4_def sample_det
  by (simp add: sample_A_def sample_B_def leading_block_def block_def upt4 cofactor_def minor_def drop_nth_def)

lemma sample_schur: "schur sample_A sample_B = sample_AR"
  by (simp add: sample_A_def sample_B_def sample_AR_def schur_def block_def mat_mul_def mat_sub_def col_def ncols_def dot_def upt_rec)

lemma sample_A_is_mat: "is_mat 8 13 sample_A"
  using sample_build by (rule build_A_is_mat)

lemma sample_B_is_mat: "is_mat 4 4 sample_B"
  unfolding sample_inverse[symmetric] by (rule inverse4_is_mat)

lemma cayley_zero: "cayley (Vec3 0 0 0) = identity3"
  by (simp add: cayley_def identity3_def)

lemma cayley_unit: "cayley (Vec3 1 0 0) = Mat3 (Vec3 1 0 0) (Vec3 0 0 (- 1)) (Vec3 0 1 0)"
  by (simp add: cayley_def)

lemma sample_back_identity: "back_substitute sample_A sample_B identity3 = [0, 0, 0, 1]"
  by (simp add: back_substitute_def sample_A_def sample_B_def block_def
        mv_def mat_neg_def dot_def data_def identity3_def)

lemma sample_back_unit:
  "back_substitute sample_A sample_B (Mat3 (Vec3 1 0 0) (Vec3 0 0 (- 1)) (Vec3 0 1 0)) = [0, 5, 5, 1]"
  by (simp add: back_substitute_def sample_A_def sample_B_def block_def
        mv_def mat_neg_def dot_def data_def)

lemma sample_identity_run:
  "gp4ps pass_on identity_solver cayley sample_p sample_x sample_X [] = (Inr 1, [identity_pose])"
proof -
  have s: "identity_solver (pass_on (schur sample_A (inverse4 (leading_block sample_A))))
           = (1, \<lambda>k. Vec3 0 0 0)"
    by (simp add: sample_inverse sample_schur pass_on_def identity_solver_def sample_AR_def
        mv_def dot_def data_def identity3_def)
  have c: "cayley (Vec3 0 0 0) = identity3"
    by (simp add: cayley_def identity3_def)
  have "make_pose cayley sample_A sample_B (Vec3 0 0 0) = identity_pose"
    by (simp add: make_pose_def c back_substitute_def sample_A_def sample_B_def block_def
        mv_def mat_neg_def dot_def data_def identity3_def identity_pose_def)
  then show ?thesis
    by (simp add: gp4ps_closed[where solver = identity_solver and reduce = pass_on, OF sample_build s] sample_inverse)
qed

lemma longer_take:
  "take 4 longer_p = sample_p" "take 4 longer_x = sample_x" "take 4 longer_X = sample_X"
  by (simp_all add: longer_p_def longer_x_def longer_X_def sample_p_def sample_x_def sample_X_def)

section \<open>The rows of the coefficient matrix\<close>

text \<open>
  C3. When each of the three sequences has at least four elements, the loop succeeds
  and, for each correspondence \<open>i\<close> in 0..3, row \<open>2 * i\<close> of \<open>A\<close> holds the
  coefficients \<open>(x_z, 0, -x_x, -p_x x_z + p_z x_x)\<close> of \<open>t_x, t_y, t_z, alpha\<close>
  followed by the nine rotation coefficients, each entry of \<open>X[i]\<close> times the triple
  \<open>[x_z, 0, -x_x]\<close>; row \<open>2 * i + 1\<close> is built in the same way from
  \<open>(0, x_z, -x_y, -p_y x_z + p_z x_y)\<close> and \<open>[0, x_z, -x_y]\<close>. No iteration
  overwrites the rows of another.
\<close>

theorem rows_of_A:
  assumes "4 \<le> length p" "4 \<le> length x" "4 \<le> length X" "i < 4"
  shows "\<exists>A. build_A p x X = Inr A \<and>
     A ! (2 * i) =
       [c2 (x ! i), 0, - c0 (x ! i), - c0 (p ! i) * c2 (x ! i) + c2 (p ! i) * c0 (x ! i)]
       @ kron3 (X ! i) [c2 (x ! i), 0, - c0 (x ! i)] \<and>
     A ! (2 * i + 1) =
       [0, c2 (x ! i), - c1 (x ! i), - c1 (p ! i) * c2 (x ! i) + c2 (p ! i) * c1 (x ! i)]
       @ kron3 (X ! i) [0, c2 (x ! i), - c1 (x ! i)]"
proof -
  from \<open>i < 4\<close> consider "i = 0" | "i = 1" | "i = 2" | "i = 3" by linarith
  then show ?thesis
    by cases (simp_all add: build_A_rows[OF assms(1-3)] row_even_def row_odd_def kron3_def)
qed

text \<open>The rows 2 and 3 of the configuration, those of correspondence 1.\<close>

theorem rows_of_A_witness:
  "\<exists>A. build_A sample_p sample_x sample_X = Inr A \<and>
     A ! 2 = [5, 0, - 1, 0, 5, 0, - 1, 0, 0, 0, 25, 0, - 5] \<and>
     A ! 3 = [0, 5, 1, - 5, 0, 5, 1, 0, 0, 0, 0, 25, 5]"
  using rows_of_A[of sample_p sample_x sample_X 1]
  by (simp add: sample_p_def sample_x_def sample_X_def kron3_def)

section \<open>The returned count\<close>

text \<open>
  C2. The interface of the solver of the quadratics promises a count between 0 and 8.
  With such a solver, and sequences of at least four elements, the integer that
  \<open>gp4ps\<close> returns is the count \<open>n_sols\<close> that the solver returned for the
  coefficients of \<open>AR\<close>, the output sequence has grown by exactly that number of poses,
  and the count lies between 0 and 8.
\<close>

theorem gp4ps_count:
  assumes "4 \<le> length p" "4 \<le> length x" "4 \<le> length X"
    and contract: "\<And>c. 0 \<le> fst (solver c) \<and> fst (solver c) \<le> 8"
  shows "\<exists>A n_sols solutions.
     build_A p x X = Inr A \<and>
     solver (reduce (schur A (inverse4 (leading_block A)))) = (n_sols, solutions) \<and>
     fst (gp4ps reduce solver cayley_param p x X out) = Inr n_sols \<and>
     int (length (snd (gp4ps reduce solver cayley_param p x X out))) = int (length out) + n_sols \<and>
     0 \<le> n_sols \<and> n_sols \<le> 8"
proof -
  from build_A_rows[OF assms(1-3)] obtain A where A: "build_A p x X = Inr A" by blast
  obtain n_sols solutions
    where s: "solver (reduce (schur A (inverse4 (leading_block A)))) = (n_sols, solutions)"
    by (cases "solver (reduce (schur A (inverse4 (leading_block A))))") blast
  from contract[of "reduce (schur A (inverse4 (leading_block A)))"] s
  have n: "0 \<le> n_sols" "n_sols \<le> 8" by simp_all
  have "gp4ps reduce solver cayley_param p x X out =
        (Inr n_sols, out @ map (\<lambda>k. make_pose cayley_param A (inverse4 (leading_block A)) (solutions k))
              [0..<nat n_sols])"
    using gp4ps_closed[where solver = solver and reduce = reduce, OF A s, of cayley_param out] n
    by (simp add: min_def)
  with A s n show ?thesis by simp
qed

text \<open>With the solver that reports two roots, the call returns 2 and appends two poses.\<close>

theorem gp4ps_count_witness:
  "fst (gp4ps pass_on two_roots cayley sample_p sample_x sample_X []) = Inr 2 \<and>
   length (snd (gp4ps pass_on two_roots cayley sample_p sample_x sample_X [])) = 2"
  using gp4ps_count[of sample_p sample_x sample_X two_roots pass_on cayley "[]"]
  by (auto simp add: sample_p_def sample_x_def sample_X_def two_roots_def)

section \<open>Back-substitution\<close>

text \<open>
  C4. For each of the \<open>n_sols\<close> columns of \<open>solutions\<close>, in their order, the call
  appends one pose: its \<open>R\<close> is the matrix rebuilt from the column, its \<open>t\<close> holds the
  first three components of \<open>- B * A[0:4, 4:13] * vec(R)\<close> and its \<open>alpha\<close> the
  fourth, where \<open>B\<close> is the inverse of the leading block and \<open>vec(R)\<close> lists \<open>R\<close>
  column by column.
\<close>

theorem gp4ps_back_substitution:
  assumes "build_A p x X = Inr A"
    and "B = inverse4 (leading_block A)"
    and "solver (reduce (schur A B)) = (n_sols, solutions)"
    and "n_sols \<le> 8"
  shows "snd (gp4ps reduce solver cayley_param p x X out) =
     out @ map (\<lambda>k. \<lparr>pose_R = cayley_param (solutions k),
                      pose_t = Vec3 (spec_back A B (cayley_param (solutions k)) 0)
                                    (spec_back A B (cayley_param (solutions k)) 1)
                                    (spec_back A B (cayley_param (solutions k)) 2),
                      pose_alpha = spec_back A B (cayley_param (solutions k)) 3\<rparr>)
               [0..<nat n_sols]"
proof -
  have A: "is_mat 8 13 A" using assms(1) by (rule build_A_is_mat)
  have B: "is_mat 4 4 B" unfolding assms(2) by (rule inverse4_is_mat)
  have "make_pose cayley_param A B s =
        \<lparr>pose_R = cayley_param s,
         pose_t = Vec3 (spec_back A B (cayley_param s) 0) (spec_back A B (cayley_param s) 1)
                       (spec_back A B (cayley_param s) 2),
         pose_alpha = spec_back A B (cayley_param s) 3\<rparr>" for s
    by (simp add: make_pose_def Let_def spec_back_eq[OF A B])
  then show ?thesis
    using gp4ps_closed[where solver = solver and reduce = reduce, OF assms(1), of n_sols solutions
        cayley_param out] assms(2-4)
    by (simp add: min_def)
qed

text \<open>
  The two poses that the configuration gives with the roots \<open>(0, 0, 0)\<close> and
  \<open>(1, 0, 0)\<close>.
\<close>

theorem gp4ps_back_substitution_witness:
  "snd (gp4ps pass_on two_roots cayley sample_p sample_x sample_X []) =
     [identity_pose,
      \<lparr>pose_R = Mat3 (Vec3 1 0 0) (Vec3 0 0 (- 1)) (Vec3 0 1 0), pose_t = Vec3 0 5 5,
       pose_alpha = 1\<rparr>]"
proof -
  have s: "two_roots (pass_on (schur sample_A sample_B)) = (2, \<lambda>k. Vec3 (of_nat k) 0 0)"
    by (simp add: two_roots_def)
  have b: "spec_back sample_A sample_B R i = back_substitute sample_A sample_B R ! i"
    if "i < 4" for R i
    using spec_back_eq[OF sample_A_is_mat sample_B_is_mat that] by simp
  show ?thesis
    using gp4ps_back_substitution[where solver = two_roots and reduce = pass_on,
        OF sample_build sample_inverse[symmetric] s, of cayley "[]"]
    by (simp add: upt_rec b cayley_zero cayley_unit sample_back_identity sample_back_unit
        identity_pose_def)
qed

section \<open>The output sequence\<close>

text \<open>
  C6. The call only appends to the output sequence: what the sequence held before the
  call is still there, unchanged and at the same positions; the poses that follow, and
  the returned value, are those of the same call on an empty sequence, so nothing is
  read from it. When the solver reports no root the call returns 0 and leaves the
  sequence as it was.
\<close>

theorem gp4ps_only_appends:
  "take (length out) (snd (gp4ps reduce solver cayley_param p x X out)) = out \<and>
   drop (length out) (snd (gp4ps reduce solver cayley_param p x X out)) =
     snd (gp4ps reduce solver cayley_param p x X []) \<and>
   fst (gp4ps reduce solver cayley_param p x X out) =
     fst (gp4ps reduce solver cayley_param p x X []) \<and>
   (\<forall>A solutions.
      build_A p x X = Inr A \<and>
      solver (reduce (schur A (inverse4 (leading_block A)))) = (0, solutions) \<longrightarrow>
      gp4ps reduce solver cayley_param p x X out = (Inr 0, out))"
proof -
  have "gp4ps reduce solver cayley_param p x X out = (Inr 0, out)"
    if "build_A p x X = Inr A"
      and "solver (reduce (schur A (inverse4 (leading_block A)))) = (0, solutions)"
    for A solutions
    by (simp add: gp4ps_closed[where solver = solver and reduce = reduce, OF that])
  then show ?thesis
    using gp4ps_frame[of reduce solver cayley_param p x X out] by auto
qed

text \<open>A solver without roots, and an output sequence that already holds a pose.\<close>

theorem gp4ps_only_appends_witness:
  "gp4ps pass_on (\<lambda>c. (0, \<lambda>k. Vec3 0 0 0)) cayley sample_p sample_x sample_X [identity_pose]
     = (Inr 0, [identity_pose])"
  using gp4ps_only_appends[of "[identity_pose]" pass_on "\<lambda>c. (0, \<lambda>k. Vec3 0 0 0)" cayley
      sample_p sample_x sample_X] sample_build
  by simp

section \<open>The inputs that only reach row 7\<close>

text \<open>
  C9. The second component of \<open>x[3]\<close> and the second component of \<open>p[3]\<close> occur in
  row 7 of \<open>A\<close> only, and neither the leading block, nor the reduced matrix (rows 4 to
  6), nor the back-substitution (rows 0 to 3) reads that row: replacing the two values
  by any others changes neither the returned value nor any appended pose.
\<close>

theorem gp4ps_independent_of_row7_inputs:
  "gp4ps reduce solver cayley_param (p[3 := with_c1 (p ! 3) a]) (x[3 := with_c1 (x ! 3) b]) X out
     = gp4ps reduce solver cayley_param p x X out"
proof (cases "4 \<le> length p \<and> 4 \<le> length x \<and> 4 \<le> length X")
  case False
  then have "length p < 4 \<or> length x < 4 \<or> length X < 4" by auto
  then show ?thesis by (simp add: gp4ps_short)
next
  case True
  let ?p = "p[3 := with_c1 (p ! 3) a]" and ?x = "x[3 := with_c1 (x ! 3) b]"
  let ?upper = "[row_even (p ! 0) (x ! 0) (X ! 0), row_odd (p ! 0) (x ! 0) (X ! 0),
     row_even (p ! 1) (x ! 1) (X ! 1), row_odd (p ! 1) (x ! 1) (X ! 1),
     row_even (p ! 2) (x ! 2) (X ! 2), row_odd (p ! 2) (x ! 2) (X ! 2),
     row_even (p ! 3) (x ! 3) (X ! 3)]"
  have e: "row_even (with_c1 (p ! 3) a) (with_c1 (x ! 3) b) (X ! 3) = row_even (p ! 3) (x ! 3) (X ! 3)"
    by (simp add: row_even_def with_c1_def)
  have A: "build_A p x X = Inr (?upper @ [row_odd (p ! 3) (x ! 3) (X ! 3)])"
    using True by (simp add: build_A_rows)
  have A': "build_A ?p ?x X = Inr (?upper @ [row_odd (?p ! 3) (?x ! 3) (X ! 3)])"
    using True build_A_rows[of ?p ?x X] by (simp add: e)
  show ?thesis
    by (rule gp4ps_first_seven_rows[OF A A']) simp
qed

text \<open>Changing the second component of \<open>p[3]\<close> from 1 to 5 in the configuration.\<close>

theorem gp4ps_independent_of_row7_inputs_witness:
  "gp4ps pass_on identity_solver cayley skewed_p sample_x sample_X [] = (Inr 1, [identity_pose])"
  using gp4ps_independent_of_row7_inputs[of pass_on identity_solver cayley sample_p 5 sample_x 0
      sample_X "[]"] sample_identity_run
  by (simp add: sample_p_def sample_x_def skewed_p_def with_c1_def)

section \<open>Sequences of more or fewer than four elements\<close>

text \<open>
  C10. When each of the three sequences has more than four elements, the input is not
  rejected: the loop reads the elements 0 to 3 only, and the returned value and the
  appended poses are those of the call on the first four elements of each sequence.
\<close>

theorem gp4ps_ignores_extra_elements:
  assumes "4 < length p" "4 < length x" "4 < length X"
  shows "gp4ps reduce solver cayley_param p x X out =
           gp4ps reduce solver cayley_param (take 4 p) (take 4 x) (take 4 X) out \<and>
         (\<exists>A. build_A p x X = Inr A) \<and>
         fst (gp4ps reduce solver cayley_param p x X out) \<noteq> Inl InputIndexOutOfRange"
proof -
  have len: "4 \<le> length p" "4 \<le> length x" "4 \<le> length X" using assms by simp_all
  from build_A_rows[OF len] obtain A where A: "build_A p x X = Inr A" by blast
  obtain n_sols solutions
    where s: "solver (reduce (schur A (inverse4 (leading_block A)))) = (n_sols, solutions)"
    by (cases "solver (reduce (schur A (inverse4 (leading_block A))))") blast
  have "gp4ps reduce solver cayley_param p x X out =
        gp4ps reduce solver cayley_param (take 4 p) (take 4 x) (take 4 X) out"
    by (simp add: gp4ps_def build_A_take[OF len])
  moreover have "fst (gp4ps reduce solver cayley_param p x X out) \<noteq> Inl InputIndexOutOfRange"
    by (simp add: gp4ps_closed[where solver = solver and reduce = reduce, OF A s])
  ultimately show ?thesis using A by blast
qed

text \<open>The configuration with a fifth correspondence.\<close>

theorem gp4ps_ignores_extra_elements_witness:
  "gp4ps pass_on identity_solver cayley longer_p longer_x longer_X [] = (Inr 1, [identity_pose])"
  using gp4ps_ignores_extra_elements[of longer_p longer_x longer_X pass_on identity_solver cayley "[]"]
    sample_identity_run
  by (simp add: longer_take) (simp add: longer_p_def longer_x_def longer_X_def sample_p_def sample_x_def sample_X_def)

text \<open>
  C8. The solver makes no check of the shape of its input (a vector has three
  components by its type). When one of the sequences has fewer than four elements, the
  loop that fills \<open>A\<close> reads outside of it; the embedding reports that read as
  \<open>InputIndexOutOfRange\<close>, with the output sequence untouched. When every sequence
  has at least four elements, more than four included, nothing is rejected, and the
  elements after the fourth are ignored.
\<close>

theorem gp4ps_no_shape_check:
  "(length p < 4 \<or> length x < 4 \<or> length X < 4 \<longrightarrow>
      gp4ps reduce solver cayley_param p x X out = (Inl InputIndexOutOfRange, out)) \<and>
   (4 \<le> length p \<and> 4 \<le> length x \<and> 4 \<le> length X \<longrightarrow>
      fst (gp4ps reduce solver cayley_param p x X out) \<noteq> Inl InputIndexOutOfRange \<and>
      gp4ps reduce solver cayley_param p x X out =
        gp4ps reduce solver cayley_param (take 4 p) (take 4 x) (take 4 X) out)"
proof (intro conjI impI)
  assume "length p < 4 \<or> length x < 4 \<or> length X < 4"
  then show "gp4ps reduce solver cayley_param p x X out = (Inl InputIndexOutOfRange, out)"
    by (rule gp4ps_short)
next
  assume len: "4 \<le> length p \<and> 4 \<le> length x \<and> 4 \<le> length X"
  then obtain A where A: "build_A p x X = Inr A" using build_A_rows[of p x X] by blast
  obtain n_sols solutions
    where s: "solver (reduce (schur A (inverse4 (leading_block A)))) = (n_sols, solutions)"
    by (cases "solver (reduce (schur A (inverse4 (leading_block A))))") blast
  show "fst (gp4ps reduce solver cayley_param p x X out) \<noteq> Inl InputIndexOutOfRange"
    by (simp add: gp4ps_closed[where solver = solver and reduce = reduce, OF A s])
  show "gp4ps reduce solver cayley_param p x X out =
        gp4ps reduce solver cayley_param (take 4 p) (take 4 x) (take 4 X) out"
    using len by (simp add: gp4ps_def build_A_take)
qed

text \<open>A sequence \<open>p\<close> of three elements, and sequences of five.\<close>

theorem gp4ps_no_shape_check_witness:
  "gp4ps pass_on identity_solver cayley (take 3 sample_p) sample_x sample_X [identity_pose]
     = (Inl InputIndexOutOfRange, [identity_pose]) \<and>
   fst (gp4ps pass_on identity_solver cayley longer_p longer_x longer_X []) \<noteq> Inl InputIndexOutOfRange"
  using gp4ps_no_shape_check[of "take 3 sample_p" sample_x sample_X pass_on identity_solver cayley
      "[identity_pose]"]
    gp4ps_no_shape_check[of longer_p longer_x longer_X pass_on identity_solver cayley "[]"]
  by (auto simp add: longer_p_def longer_x_def longer_X_def sample_p_def sample_x_def sample_X_def)

text \<open>
  Sequences of five elements are not of length four, and yet the call signals no error:
  it returns 1 and appends the pose of the first four correspondences.
\<close>

theorem gp4ps_accepts_five_counterexample:
  "length longer_p \<noteq> 4 \<and> length longer_x \<noteq> 4 \<and> length longer_X \<noteq> 4 \<and>
   gp4ps pass_on identity_solver cayley longer_p longer_x longer_X [] = (Inr 1, [identity_pose])"
proof -
  have "build_A longer_p longer_x longer_X = build_A sample_p sample_x sample_X"
    using build_A_take[of longer_p longer_x longer_X]
    by (simp add: longer_take) (simp add: longer_p_def longer_x_def longer_X_def sample_p_def sample_x_def sample_X_def)
  then have "gp4ps pass_on identity_solver cayley longer_p longer_x longer_X []
             = gp4ps pass_on identity_solver cayley sample_p sample_x sample_X []"
    by (simp add: gp4ps_def)
  then show ?thesis
    by (simp add: sample_identity_run) (simp add: longer_p_def longer_x_def longer_X_def sample_p_def sample_x_def sample_X_def)
qed

section \<open>The elimination stage\<close>

lemma mat_sub_is_mat: "is_mat m n M \<Longrightarrow> is_mat m n N \<Longrightarrow> is_mat m n (mat_sub M N)"
  by (simp add: is_mat_def mat_sub_def list_all_length)

lemma mat_sub_entry:
  "is_mat m n M \<Longrightarrow> is_mat m n N \<Longrightarrow> i < m \<Longrightarrow> j < n \<Longrightarrow>
     mat_sub M N ! i ! j = M ! i ! j - N ! i ! j"
  by (simp add: is_mat_def mat_sub_def list_all_length)

lemma block_entry:
  assumes "is_mat m n M" "i + r \<le> m" "j + c \<le> n" "k < r" "l < c"
  shows "block M i j r c ! k ! l = M ! (i + k) ! (j + l)"
  using assms block_nth[OF assms(1,2,4), of j c] is_mat_row[OF assms(1), of "i + k"] by simp

lemma schur_take: "schur A B = take 3 (spec_schur A B)"
proof -
  have b: "block A i j 3 c = take 3 (block A i j 4 c)" for i j c
    by (simp add: block_def take_map)
  have m: "mat_mul (take 3 M) N = take 3 (mat_mul M N)" for M N
    by (simp add: mat_mul_def take_map)
  show ?thesis
    by (simp add: schur_def spec_schur_def mat_sub_def b m take_map take_zip)
qed

lemma schur_is_mat:
  assumes A: "is_mat 8 13 A" and B: "is_mat 4 4 B"
  shows "is_mat 3 9 (schur A B)"
proof -
  have m40: "is_mat 3 4 (block A 4 0 3 4)" by (rule block_is_mat[OF A]) simp_all
  have m44: "is_mat 3 9 (block A 4 4 3 9)" by (rule block_is_mat[OF A]) simp_all
  have m04: "is_mat 4 9 (block A 0 4 4 9)" by (rule block_is_mat[OF A]) simp_all
  have "is_mat 3 4 (mat_mul (block A 4 0 3 4) B)" by (rule mat_mul_is_mat[OF m40 B]) simp
  then have "is_mat 3 9 (mat_mul (mat_mul (block A 4 0 3 4) B) (block A 0 4 4 9))"
    by (rule mat_mul_is_mat[OF _ m04]) simp
  with m44 show ?thesis unfolding schur_def by (rule mat_sub_is_mat)
qed

lemma schur_entry:
  assumes A: "is_mat 8 13 A" and B: "is_mat 4 4 B" and i: "i < 3" and j: "j < 9"
  shows "schur A B ! i ! j =
     A ! (4 + i) ! (4 + j) - (\<Sum>k<4. \<Sum>l<4. A ! (4 + i) ! k * B ! k ! l * A ! l ! (4 + j))"
proof -
  let ?A40 = "block A 4 0 3 4" and ?A44 = "block A 4 4 3 9" and ?A04 = "block A 0 4 4 9"
  have m40: "is_mat 3 4 ?A40" by (rule block_is_mat[OF A]) simp_all
  have m44: "is_mat 3 9 ?A44" by (rule block_is_mat[OF A]) simp_all
  have m04: "is_mat 4 9 ?A04" by (rule block_is_mat[OF A]) simp_all
  have m40B: "is_mat 3 4 (mat_mul ?A40 B)" by (rule mat_mul_is_mat[OF m40 B]) simp
  have prod: "is_mat 3 9 (mat_mul (mat_mul ?A40 B) ?A04)"
    by (rule mat_mul_is_mat[OF m40B m04]) simp
  have e40: "?A40 ! i ! k = A ! (4 + i) ! k" if "k < 4" for k
    using block_entry[OF A, of 4 3 0 4 i k] i that by simp
  have e04: "?A04 ! l ! j = A ! l ! (4 + j)" if "l < 4" for l
    using block_entry[OF A, of 0 4 4 9 l j] j that by simp
  have e44: "?A44 ! i ! j = A ! (4 + i) ! (4 + j)"
    using block_entry[OF A, of 4 3 4 9 i j] i j by simp
  have "mat_mul (mat_mul ?A40 B) ?A04 ! i ! j = (\<Sum>l<4. mat_mul ?A40 B ! i ! l * ?A04 ! l ! j)"
    using i j by (intro mat_mul_entry[OF m40B m04]) simp_all
  also have "\<dots> = (\<Sum>l<4. (\<Sum>k<4. A ! (4 + i) ! k * B ! k ! l) * A ! l ! (4 + j))"
  proof (intro sum.cong refl)
    fix l :: nat assume "l \<in> {..<4}"
    then have l: "l < 4" by simp
    have "mat_mul ?A40 B ! i ! l = (\<Sum>k<4. ?A40 ! i ! k * B ! k ! l)"
      using i l by (intro mat_mul_entry[OF m40 B]) simp_all
    also have "\<dots> = (\<Sum>k<4. A ! (4 + i) ! k * B ! k ! l)"
      by (intro sum.cong refl) (simp add: e40)
    finally show "mat_mul ?A40 B ! i ! l * ?A04 ! l ! j
                  = (\<Sum>k<4. A ! (4 + i) ! k * B ! k ! l) * A ! l ! (4 + j)"
      using l by (simp add: e04)
  qed
  also have "\<dots> = (\<Sum>l<4. \<Sum>k<4. A ! (4 + i) ! k * B ! k ! l * A ! l ! (4 + j))"
    by (simp add: sum_distrib_right)
  also have "\<dots> = (\<Sum>k<4. \<Sum>l<4. A ! (4 + i) ! k * B ! k ! l * A ! l ! (4 + j))"
    by (rule sum.swap)
  finally show ?thesis
    unfolding schur_def using mat_sub_entry[OF m44 prod i j] by (simp add: e44)
qed

text \<open>
  C1. When the leading 4x4 block of \<open>A\<close> has a non-zero determinant, \<open>B\<close> is its
  inverse (on both sides), and the reduced matrix \<open>AR\<close> is the 3x9 matrix
  \<open>A[4:7, 4:13] - A[4:7, 0:4] * B * A[0:4, 4:13]\<close>: the inverse is substituted into
  the rows 4, 5 and 6, three of the four remaining rows. Row 7 is not used: \<open>AR\<close> is
  the first three rows of the four that the update of all the remaining rows would
  give. \<open>AR\<close> is what the rotation-recovery stage receives: the call continues with the
  solutions of the solver for the coefficients of \<open>AR\<close>.
\<close>

theorem elimination_stage:
  assumes "build_A p x X = Inr A"
    and "det4 (leading_block A) \<noteq> 0"
    and "B = inverse4 (leading_block A)"
    and "AR = schur A B"
  shows "mat_mul B (leading_block A) = identity4 \<and>
         mat_mul (leading_block A) B = identity4 \<and>
         is_mat 3 9 AR \<and>
         AR = take 3 (spec_schur A B) \<and>
         (\<forall>i<3. \<forall>j<9. AR ! i ! j =
            A ! (4 + i) ! (4 + j) - (\<Sum>k<4. \<Sum>l<4. A ! (4 + i) ! k * B ! k ! l * A ! l ! (4 + j))) \<and>
         gp4ps reduce solver cayley_param p x X out =
           push_poses cayley_param A B (snd (solver (reduce AR))) (fst (solver (reduce AR))) 0 out"
proof -
  have A: "is_mat 8 13 A" using assms(1) by (rule build_A_is_mat)
  have L: "is_mat 4 4 (leading_block A)" using A by (rule leading_block_is_mat)
  have B: "is_mat 4 4 B" unfolding assms(3) by (rule inverse4_is_mat)
  have "mat_mul B (leading_block A) = identity4" "mat_mul (leading_block A) B = identity4"
    unfolding assms(3) using L assms(2) by (rule inverse4_left, rule inverse4_right)
  moreover have "is_mat 3 9 AR" unfolding assms(4) using A B by (rule schur_is_mat)
  moreover have "AR = take 3 (spec_schur A B)" unfolding assms(4) by (rule schur_take)
  moreover have "\<forall>i<3. \<forall>j<9. AR ! i ! j =
       A ! (4 + i) ! (4 + j) - (\<Sum>k<4. \<Sum>l<4. A ! (4 + i) ! k * B ! k ! l * A ! l ! (4 + j))"
    unfolding assms(4) using schur_entry[OF A B] by blast
  moreover have "gp4ps reduce solver cayley_param p x X out =
       push_poses cayley_param A B (snd (solver (reduce AR))) (fst (solver (reduce AR))) 0 out"
    using assms(1,3,4) by (simp add: gp4ps_def case_prod_beta Let_def)
  ultimately show ?thesis by blast
qed

text \<open>The inverse and the reduced matrix of the configuration.\<close>

theorem elimination_stage_witness:
  "mat_mul sample_B (leading_block sample_A) = identity4 \<and>
   mat_mul (leading_block sample_A) sample_B = identity4 \<and>
   is_mat 3 9 sample_AR \<and>
   sample_AR = take 3 (spec_schur sample_A sample_B)"
  using elimination_stage[where reduce = pass_on and solver = two_roots and cayley_param = cayley
      and out = "[]", OF sample_build _ sample_inverse[symmetric] sample_schur[symmetric]]
  by (simp add: sample_det)

text \<open>
  On the configuration, the update of all of the rows 4 to 7 has four rows, the reduced
  matrix of the solver has three.
\<close>

theorem schur_rows_counterexample:
  "build_A sample_p sample_x sample_X = Inr sample_A \<and>
   det4 (leading_block sample_A) \<noteq> 0 \<and>
   inverse4 (leading_block sample_A) = sample_B \<and>
   length (schur sample_A sample_B) = 3 \<and>
   length (spec_schur sample_A sample_B) = 4 \<and>
   schur sample_A sample_B \<noteq> spec_schur sample_A sample_B"
proof -
  have 3: "length (schur sample_A sample_B) = 3"
    by (simp add: sample_schur sample_AR_def)
  have 4: "length (spec_schur sample_A sample_B) = 4"
    by (simp add: spec_schur_def mat_sub_def mat_mul_def block_def sample_A_def)
  from 3 4 have "schur sample_A sample_B \<noteq> spec_schur sample_A sample_B" by auto
  with 3 4 show ?thesis by (simp add: sample_build sample_det sample_inverse)
qed

section \<open>The residuals of a returned pose\<close>

lemma row_even_residual:
  assumes "length ts = 4"
  shows "dot (row_even p_i x_i X_i) (ts @ data R) =
     residual_even \<lparr>pose_R = R, pose_t = Vec3 (ts ! 0) (ts ! 1) (ts ! 2), pose_alpha = ts ! 3\<rparr>
       p_i x_i X_i"
proof -
  from assms obtain a b c d where "ts = [a, b, c, d]"
    by (auto simp: numeral_eq_Suc length_Suc_conv)
  then show ?thesis
    by (simp add: row_even_def dot_def data_def residual_even_def offset_def rotate_def
        algebra_simps)
qed

lemma row_odd_residual:
  assumes "length ts = 4"
  shows "dot (row_odd p_i x_i X_i) (ts @ data R) =
     residual_odd \<lparr>pose_R = R, pose_t = Vec3 (ts ! 0) (ts ! 1) (ts ! 2), pose_alpha = ts ! 3\<rparr>
       p_i x_i X_i"
proof -
  from assms obtain a b c d where "ts = [a, b, c, d]"
    by (auto simp: numeral_eq_Suc length_Suc_conv)
  then show ?thesis
    by (simp add: row_odd_def dot_def data_def residual_odd_def offset_def rotate_def
        algebra_simps)
qed

lemma make_pose_rows:
  assumes A: "build_A p x X = Inr A"
    and pose: "pose = make_pose cayley_param A (inverse4 M) s"
    and i: "i < 4"
  shows "dot (A ! (2 * i)) (back_substitute A (inverse4 M) (cayley_param s) @ data (cayley_param s))
           = residual_even pose (p ! i) (x ! i) (X ! i)"
    and "dot (A ! (2 * i + 1)) (back_substitute A (inverse4 M) (cayley_param s) @ data (cayley_param s))
           = residual_odd pose (p ! i) (x ! i) (X ! i)"
proof -
  from build_A_Inr_lengths[OF A] have len: "4 \<le> length p" "4 \<le> length x" "4 \<le> length X"
    by auto
  have Aeq: "A = [row_even (p ! 0) (x ! 0) (X ! 0), row_odd (p ! 0) (x ! 0) (X ! 0),
     row_even (p ! 1) (x ! 1) (X ! 1), row_odd (p ! 1) (x ! 1) (X ! 1),
     row_even (p ! 2) (x ! 2) (X ! 2), row_odd (p ! 2) (x ! 2) (X ! 2),
     row_even (p ! 3) (x ! 3) (X ! 3), row_odd (p ! 3) (x ! 3) (X ! 3)]"
    using A build_A_rows[OF len] by simp
  from i consider "i = 0" | "i = 1" | "i = 2" | "i = 3" by linarith
  then have rows: "A ! (2 * i) = row_even (p ! i) (x ! i) (X ! i)
      \<and> A ! (2 * i + 1) = row_odd (p ! i) (x ! i) (X ! i)"
    by cases (simp_all add: Aeq)
  then have r0: "A ! (2 * i) = row_even (p ! i) (x ! i) (X ! i)"
    and r1: "A ! (2 * i + 1) = row_odd (p ! i) (x ! i) (X ! i)" by simp_all
  have ts: "length (back_substitute A (inverse4 M) (cayley_param s)) = 4"
    by (rule back_substitute_length)
  show "dot (A ! (2 * i)) (back_substitute A (inverse4 M) (cayley_param s) @ data (cayley_param s))
           = residual_even pose (p ! i) (x ! i) (X ! i)"
    unfolding r0 pose by (simp add: row_even_residual[OF ts] make_pose_def Let_def)
  show "dot (A ! (2 * i + 1)) (back_substitute A (inverse4 M) (cayley_param s) @ data (cayley_param s))
           = residual_odd pose (p ! i) (x ! i) (X ! i)"
    unfolding r1 pose by (simp add: row_odd_residual[OF ts] make_pose_def Let_def)
qed

lemma made_pose_residuals:
  assumes A: "build_A p x X = Inr A"
    and det: "det4 (leading_block A) \<noteq> 0"
    and B: "B = inverse4 (leading_block A)"
    and root: "mv (schur A B) (data (cayley_param s)) = [0, 0, 0]"
    and pose: "pose = make_pose cayley_param A B s"
  shows "i < 3 \<Longrightarrow> residual_even pose (p ! i) (x ! i) (X ! i) = 0"
    and "i < 3 \<Longrightarrow> residual_odd pose (p ! i) (x ! i) (X ! i) = 0"
    and "residual_even pose (p ! 3) (x ! 3) (X ! 3) = 0"
proof -
  let ?u = "back_substitute A B (cayley_param s) @ data (cayley_param s)"
  have Am: "is_mat 8 13 A" using A by (rule build_A_is_mat)
  have top: "dot (A ! k) ?u = 0" if "k < 4" for k
    unfolding B using Am det that by (rule rows_top)
  have bottom: "dot (A ! (4 + k)) ?u = 0" if "k < 3" for k
  proof -
    have "dot (A ! (4 + k)) ?u = mv (schur A B) (data (cayley_param s)) ! k"
      unfolding B using Am that by (rule rows_bottom)
    also have "\<dots> = 0"
      using that unfolding root by (auto simp: numeral_eq_Suc less_Suc_eq)
    finally show ?thesis .
  qed
  have seven: "dot (A ! k) ?u = 0" if "k < 7" for k
  proof (cases "k < 4")
    case True
    then show ?thesis by (rule top)
  next
    case False
    with that have "k - 4 < 3" "k = 4 + (k - 4)" by simp_all
    with bottom[of "k - 4"] show ?thesis by simp
  qed
  have ev: "residual_even pose (p ! j) (x ! j) (X ! j) = dot (A ! (2 * j)) ?u" if "j < 4" for j
    using make_pose_rows(1)[OF A pose[unfolded B] that] by (simp add: B)
  have od: "residual_odd pose (p ! j) (x ! j) (X ! j) = dot (A ! (2 * j + 1)) ?u" if "j < 4" for j
    using make_pose_rows(2)[OF A pose[unfolded B] that] by (simp add: B)
  show "i < 3 \<Longrightarrow> residual_even pose (p ! i) (x ! i) (X ! i) = 0"
    using ev[of i] seven[of "2 * i"] by simp
  show "i < 3 \<Longrightarrow> residual_odd pose (p ! i) (x ! i) (X ! i) = 0"
    using od[of i] seven[of "2 * i + 1"] by simp
  show "residual_even pose (p ! 3) (x ! 3) (X ! 3) = 0"
    using ev[of 3] seven[of 6] by simp
qed

lemma residuals_on_ray:
  assumes "residual_even pose p_i x_i X_i = 0" "residual_odd pose p_i x_i X_i = 0" "c2 x_i \<noteq> 0"
  shows "on_ray pose (c2 (offset pose p_i X_i) / c2 x_i) p_i x_i X_i"
  using assms by (simp add: on_ray_def residual_even_def residual_odd_def field_simps)

lemma appended_poses:
  assumes A: "build_A p x X = Inr A"
    and s: "solver (reduce (schur A (inverse4 (leading_block A)))) = (n_sols, solutions)"
  shows "drop (length out) (snd (gp4ps reduce solver cayley_param p x X out)) =
     map (\<lambda>k. make_pose cayley_param A (inverse4 (leading_block A)) (solutions k))
       [0..<nat (min n_sols 8)]"
  by (simp add: gp4ps_closed[where solver = solver and reduce = reduce, OF A s])

lemma exact_rootsD:
  "exact_roots cayley_param AR n_sols solutions \<Longrightarrow> k < nat n_sols \<Longrightarrow>
     mv AR (data (cayley_param (solutions k))) = [0, 0, 0]"
  by (simp add: exact_roots_def list_all_iff)

lemma skewed_build: "build_A skewed_p sample_x sample_X = Inr skewed_A"
  by (simp add: build_A_rows skewed_p_def sample_x_def sample_X_def skewed_A_def sample_A_def
      row_even_def row_odd_def)

lemma skewed_blocks:
  "leading_block skewed_A = leading_block sample_A"
  "schur skewed_A B = schur sample_A B"
  by (simp_all add: skewed_A_def sample_A_def leading_block_def schur_def block_def)

lemma identity_solver_sample:
  "identity_solver (pass_on (schur sample_A sample_B)) = (1, \<lambda>k. Vec3 0 0 0)"
  by (simp add: sample_schur pass_on_def identity_solver_def sample_AR_def
        mv_def dot_def data_def identity3_def)

lemma sample_exact: "exact_roots cayley (schur sample_A sample_B) 1 (\<lambda>k. Vec3 0 0 0)"
  by (simp add: exact_roots_def cayley_zero sample_schur sample_AR_def mv_def dot_def data_def
      identity3_def)

text \<open>
  C5. Assume that the leading block has a non-zero determinant and that the roots are
  exact. Then for every pose that the call appends, both residual components vanish
  for the correspondences 0, 1 and 2, and there is a \<open>lambda\<close> with
  \<open>alpha * p[i] + lambda * x[i] = R * X[i] + t\<close> for each of them whose \<open>x[i]\<close> has a
  non-zero third component; for correspondence 3 the first of the two components
  vanishes. (The second one belongs to row 7, which the solver does not use.)
\<close>

theorem residual_consistency:
  assumes "build_A p x X = Inr A"
    and "det4 (leading_block A) \<noteq> 0"
    and "B = inverse4 (leading_block A)"
    and "solver (reduce (schur A B)) = (n_sols, solutions)"
    and "exact_roots cayley_param (schur A B) n_sols solutions"
    and "pose \<in> set (drop (length out) (snd (gp4ps reduce solver cayley_param p x X out)))"
  shows "(\<forall>i<3. residual_even pose (p ! i) (x ! i) (X ! i) = 0 \<and>
                 residual_odd pose (p ! i) (x ! i) (X ! i) = 0 \<and>
                 (c2 (x ! i) \<noteq> 0 \<longrightarrow> (\<exists>lambda. on_ray pose lambda (p ! i) (x ! i) (X ! i)))) \<and>
         residual_even pose (p ! 3) (x ! 3) (X ! 3) = 0"
proof -
  have "pose \<in> (\<lambda>k. make_pose cayley_param A B (solutions k)) ` {0..<nat (min n_sols 8)}"
    using assms(6)
    unfolding appended_poses[where solver = solver and reduce = reduce,
        OF assms(1) assms(4)[unfolded assms(3)]]
    by (simp add: assms(3))
  then obtain k where "k < nat (min n_sols 8)"
    and pose: "pose = make_pose cayley_param A B (solutions k)" by auto
  then have k: "k < nat n_sols" by simp
  have root: "mv (schur A B) (data (cayley_param (solutions k))) = [0, 0, 0]"
    using assms(5) k by (rule exact_rootsD)
  note r = made_pose_residuals[OF assms(1-3) root pose]
  show ?thesis
    using r residuals_on_ray[of pose] by blast
qed

text \<open>The pose that the configuration gives with the solver that knows the identity.\<close>

theorem residual_consistency_witness:
  "residual_even identity_pose (sample_p ! 0) (sample_x ! 0) (sample_X ! 0) = 0 \<and>
   residual_odd identity_pose (sample_p ! 0) (sample_x ! 0) (sample_X ! 0) = 0 \<and>
   (\<exists>lambda. on_ray identity_pose lambda (sample_p ! 2) (sample_x ! 2) (sample_X ! 2)) \<and>
   residual_even identity_pose (sample_p ! 3) (sample_x ! 3) (sample_X ! 3) = 0"
proof -
  have "identity_pose \<in> set (drop (length [])
          (snd (gp4ps pass_on identity_solver cayley sample_p sample_x sample_X [])))"
    by (simp add: sample_identity_run)
  moreover have "det4 (leading_block sample_A) \<noteq> 0" by (simp add: sample_det)
  moreover have "c2 (sample_x ! 2) \<noteq> 0" by (simp add: sample_x_def)
  moreover have "(0::nat) < 3" "(2::nat) < 3" by simp_all
  ultimately show ?thesis
    using residual_consistency[where solver = identity_solver and reduce = pass_on
        and cayley_param = cayley and out = "[]" and pose = identity_pose,
        OF sample_build _ sample_inverse[symmetric] identity_solver_sample sample_exact]
    by blast
qed

text \<open>
  With \<open>p[3]\<close> changed, the leading block is invertible and the root is exact, and
  the second residual component of correspondence 3 is \<open>-24\<close> for the pose that the
  call appends.
\<close>

theorem residual_row7_counterexample:
  "build_A skewed_p sample_x sample_X = Inr skewed_A \<and>
   det4 (leading_block skewed_A) \<noteq> 0 \<and>
   identity_solver (pass_on (schur skewed_A (inverse4 (leading_block skewed_A))))
     = (1, \<lambda>k. Vec3 0 0 0) \<and>
   exact_roots cayley (schur skewed_A (inverse4 (leading_block skewed_A))) 1 (\<lambda>k. Vec3 0 0 0) \<and>
   gp4ps pass_on identity_solver cayley skewed_p sample_x sample_X [] = (Inr 1, [identity_pose]) \<and>
   residual_odd identity_pose (skewed_p ! 3) (sample_x ! 3) (sample_X ! 3) = - 24"
proof -
  have run: "gp4ps pass_on identity_solver cayley skewed_p sample_x sample_X []
             = gp4ps pass_on identity_solver cayley sample_p sample_x sample_X []"
    using gp4ps_first_seven_rows[of sample_p sample_x sample_X "take 7 sample_A" "sample_A ! 7"
        skewed_p sample_x sample_X "[0, 6, 0, - 30, 0, 6, 0, 0, 6, 0, 0, 36, 0]"
        pass_on identity_solver cayley "[]"]
      sample_build skewed_build
    by (simp add: skewed_A_def) (simp add: sample_A_def)
  have "residual_odd identity_pose (skewed_p ! 3) (sample_x ! 3) (sample_X ! 3) = - 24"
    by (simp add: residual_odd_def offset_def rotate_def identity_pose_def identity3_def
        skewed_p_def sample_x_def sample_X_def)
  then show ?thesis
    by (simp add: skewed_build skewed_blocks sample_det sample_inverse identity_solver_sample
        sample_exact run sample_identity_run)
qed

section \<open>Relabelling the correspondences\<close>

lemma build_A_nth:
  assumes A: "build_A p x X = Inr A" and i: "i < 4"
  shows "A ! (2 * i) = row_even (p ! i) (x ! i) (X ! i)"
    and "A ! (2 * i + 1) = row_odd (p ! i) (x ! i) (X ! i)"
proof -
  from build_A_Inr_lengths[OF A] have len: "4 \<le> length p" "4 \<le> length x" "4 \<le> length X"
    by auto
  have Aeq: "A = [row_even (p ! 0) (x ! 0) (X ! 0), row_odd (p ! 0) (x ! 0) (X ! 0),
     row_even (p ! 1) (x ! 1) (X ! 1), row_odd (p ! 1) (x ! 1) (X ! 1),
     row_even (p ! 2) (x ! 2) (X ! 2), row_odd (p ! 2) (x ! 2) (X ! 2),
     row_even (p ! 3) (x ! 3) (X ! 3), row_odd (p ! 3) (x ! 3) (X ! 3)]"
    using A build_A_rows[OF len] by simp
  from i consider "i = 0" | "i = 1" | "i = 2" | "i = 3" by linarith
  then have "A ! (2 * i) = row_even (p ! i) (x ! i) (X ! i)
      \<and> A ! (2 * i + 1) = row_odd (p ! i) (x ! i) (X ! i)"
    by cases (simp_all add: Aeq)
  then show "A ! (2 * i) = row_even (p ! i) (x ! i) (X ! i)"
    and "A ! (2 * i + 1) = row_odd (p ! i) (x ! i) (X ! i)" by simp_all
qed

lemma residuals_made_pose:
  assumes A: "build_A p x X = Inr A"
    and det: "det4 (leading_block A) \<noteq> 0"
    and B: "B = inverse4 (leading_block A)"
    and ev: "\<And>i. i < 4 \<Longrightarrow> residual_even pose (p ! i) (x ! i) (X ! i) = 0"
    and od: "\<And>i. i < 3 \<Longrightarrow> residual_odd pose (p ! i) (x ! i) (X ! i) = 0"
  shows "mv (schur A B) (data (pose_R pose)) = [0, 0, 0]"
    and "back_substitute A B (pose_R pose) =
           [c0 (pose_t pose), c1 (pose_t pose), c2 (pose_t pose), pose_alpha pose]"
proof -
  let ?u = "[c0 (pose_t pose), c1 (pose_t pose), c2 (pose_t pose), pose_alpha pose]"
  let ?v = "data (pose_R pose)"
  let ?L = "leading_block A" and ?A04 = "block A 0 4 4 9"
  have Am: "is_mat 8 13 A" using A by (rule build_A_is_mat)
  have L: "is_mat 4 4 ?L" using Am by (rule leading_block_is_mat)
  have Bm: "is_mat 4 4 B" unfolding B by (rule inverse4_is_mat)
  have m04: "is_mat 4 9 ?A04" by (rule block_is_mat[OF Am]) simp_all
  have u: "length ?u = 4" by simp
  have pose: "\<lparr>pose_R = pose_R pose, pose_t = Vec3 (?u ! 0) (?u ! 1) (?u ! 2), pose_alpha = ?u ! 3\<rparr>
              = pose" by simp
  have even_rows: "dot (A ! (2 * i)) (?u @ ?v) = 0" if "i < 4" for i
    unfolding build_A_nth(1)[OF A that] row_even_residual[OF u] pose using that by (rule ev)
  have odd_rows: "dot (A ! (2 * i + 1)) (?u @ ?v) = 0" if "i < 3" for i
  proof -
    from that have "i < 4" by simp
    then show ?thesis
      unfolding build_A_nth(2)[OF A \<open>i < 4\<close>] row_odd_residual[OF u] pose using that by (intro od)
  qed
  have seven: "dot (A ! k) (?u @ ?v) = 0" if "k < 7" for k
  proof (cases "even k")
    case True
    then obtain i where "k = 2 * i" by (elim evenE)
    with that even_rows[of i] show ?thesis by simp
  next
    case False
    then obtain i where "k = 2 * i + 1" by (elim oddE)
    with that odd_rows[of i] show ?thesis by simp
  qed
  have top: "mv ?L ?u = map uminus (mv ?A04 ?v)"
  proof (rule nth_equalityI)
    show "length (mv ?L ?u) = length (map uminus (mv ?A04 ?v))"
      using L m04 by (simp add: mv_length is_mat_length)
  next
    fix i assume "i < length (mv ?L ?u)"
    then have i: "i < 4" using L by (simp add: mv_length is_mat_length)
    have l: "?L ! i = take 4 (A ! i)"
      unfolding leading_block_def using block_nth[OF Am, of 0 4 i 0 4] i by simp
    have r: "?A04 ! i = drop 4 (A ! i)"
      using block_nth[OF Am, of 0 4 i 4 9] i is_mat_row[OF Am, of i] by simp
    have "dot (take 4 (A ! i)) ?u + dot (drop 4 (A ! i)) ?v = 0"
      using row_split[OF Am _ u, of i ?v] seven[of i] i by simp
    then show "mv ?L ?u ! i = map uminus (mv ?A04 ?v) ! i"
      using i L m04 by (simp add: mv_nth mv_length is_mat_length l r)
  qed
  have "back_substitute A B (pose_R pose) = mv B (map uminus (mv ?A04 ?v))"
    by (simp add: back_substitute_def mv_mat_neg mv_uminus)
  also have "\<dots> = mv B (mv ?L ?u)" by (simp add: top)
  also have "\<dots> = mv (mat_mul B ?L) ?u"
    by (rule mv_mat_mul[OF Bm L]) simp_all
  also have "\<dots> = mv identity4 ?u"
    using inverse4_left[OF L det] B by simp
  also have "\<dots> = ?u" by (rule mv_identity4) simp
  finally show bk: "back_substitute A B (pose_R pose) = ?u" .
  show "mv (schur A B) (data (pose_R pose)) = [0, 0, 0]"
  proof (rule nth_equalityI)
    show "length (mv (schur A B) ?v) = length [0, 0, 0 :: real]"
      using schur_is_mat[OF Am Bm] by (simp add: mv_length is_mat_length)
  next
    fix i assume "i < length (mv (schur A B) ?v)"
    then have i: "i < 3" using schur_is_mat[OF Am Bm] by (simp add: mv_length is_mat_length)
    have "mv (schur A B) ?v ! i = dot (A ! (4 + i)) (?u @ ?v)"
      using rows_bottom[OF Am i, of "leading_block A" "pose_R pose"] bk B by simp
    also have "\<dots> = 0" using seven[of "4 + i"] i by simp
    finally show "mv (schur A B) ?v ! i = [0, 0, 0] ! i"
      using i by (auto simp: numeral_eq_Suc less_Suc_eq)
  qed
qed

lemma gp4ps_poses_char:
  assumes A: "build_A p x X = Inr A"
    and det: "det4 (leading_block A) \<noteq> 0"
    and sol: "solves Rot reduce solver cayley_param (schur A (inverse4 (leading_block A)))"
  shows "gp4ps_poses reduce solver cayley_param p x X =
     {pose. pose_R pose \<in> Rot \<and>
            (\<forall>i<4. residual_even pose (p ! i) (x ! i) (X ! i) = 0) \<and>
            (\<forall>i<3. residual_odd pose (p ! i) (x ! i) (X ! i) = 0)}"
proof -
  let ?B = "inverse4 (leading_block A)"
  obtain n_sols solutions where s: "solver (reduce (schur A ?B)) = (n_sols, solutions)"
    by (cases "solver (reduce (schur A ?B))") blast
  from sol s have n: "0 \<le> n_sols" "n_sols \<le> 8"
    and img: "(\<lambda>k. cayley_param (solutions k)) ` {..<nat n_sols} =
              {R \<in> Rot. mv (schur A ?B) (data R) = [0, 0, 0]}"
    by (simp_all add: solves_def)
  have poses: "gp4ps_poses reduce solver cayley_param p x X =
               (\<lambda>k. make_pose cayley_param A ?B (solutions k)) ` {..<nat n_sols}"
    using n by (simp add: gp4ps_poses_def min_def lessThan_atLeast0
        gp4ps_closed[where solver = solver and reduce = reduce, OF A s])
  show ?thesis
  proof (intro set_eqI iffI)
    fix pose assume "pose \<in> gp4ps_poses reduce solver cayley_param p x X"
    then obtain k where k: "k < nat n_sols"
      and pose: "pose = make_pose cayley_param A ?B (solutions k)"
      unfolding poses by auto
    have R: "pose_R pose = cayley_param (solutions k)"
      by (simp add: pose make_pose_def Let_def)
    from k img have "cayley_param (solutions k) \<in> {R \<in> Rot. mv (schur A ?B) (data R) = [0, 0, 0]}"
      by blast
    then have rot: "cayley_param (solutions k) \<in> Rot"
      and root: "mv (schur A ?B) (data (cayley_param (solutions k))) = [0, 0, 0]" by simp_all
    note r = made_pose_residuals[OF A det refl root pose]
    have "residual_even pose (p ! i) (x ! i) (X ! i) = 0" if "i < 4" for i
    proof (cases "i < 3")
      case True
      then show ?thesis by (rule r(1))
    next
      case False
      with that have "i = 3" by simp
      then show ?thesis using r(3) by simp
    qed
    with r(2) rot R
    show "pose \<in> {pose. pose_R pose \<in> Rot \<and>
            (\<forall>i<4. residual_even pose (p ! i) (x ! i) (X ! i) = 0) \<and>
            (\<forall>i<3. residual_odd pose (p ! i) (x ! i) (X ! i) = 0)}"
      by simp
  next
    fix pose assume "pose \<in> {pose. pose_R pose \<in> Rot \<and>
            (\<forall>i<4. residual_even pose (p ! i) (x ! i) (X ! i) = 0) \<and>
            (\<forall>i<3. residual_odd pose (p ! i) (x ! i) (X ! i) = 0)}"
    then have rot: "pose_R pose \<in> Rot"
      and ev: "\<And>i. i < 4 \<Longrightarrow> residual_even pose (p ! i) (x ! i) (X ! i) = 0"
      and od: "\<And>i. i < 3 \<Longrightarrow> residual_odd pose (p ! i) (x ! i) (X ! i) = 0"
      by simp_all
    note c = residuals_made_pose[OF A det refl ev od]
    from rot c(1) img obtain k where k: "k < nat n_sols"
      and R: "pose_R pose = cayley_param (solutions k)"
      by (auto simp: set_eq_iff image_iff)
    have "pose = make_pose cayley_param A ?B (solutions k)"
      using c(2) by (simp add: make_pose_def Let_def R[symmetric])
    with k show "pose \<in> gp4ps_poses reduce solver cayley_param p x X"
      unfolding poses by blast
  qed
qed

lemma all_less3: "(\<forall>i<3. Q i) = (Q 0 \<and> Q 1 \<and> Q (2::nat))"
  by (simp add: numeral_3_eq_3 numeral_2_eq_2 less_Suc_eq imp_disjL all_conj_distrib)

lemma all_less4: "(\<forall>i<4. Q i) = (Q 0 \<and> Q 1 \<and> Q 2 \<and> Q (3::nat))"
proof
  assume "\<forall>i<4. Q i"
  then show "Q 0 \<and> Q 1 \<and> Q 2 \<and> Q 3" by simp
next
  assume q: "Q 0 \<and> Q 1 \<and> Q 2 \<and> Q 3"
  show "\<forall>i<4. Q i"
  proof (intro allI impI)
    fix i :: nat assume "i < 4"
    then consider "i = 0" | "i = 1" | "i = 2" | "i = 3" by linarith
    then show "Q i" using q by cases simp_all
  qed
qed

lemma perm4_set: "is_perm4 perm \<Longrightarrow> j \<in> set perm \<longleftrightarrow> j < 4"
proof -
  assume "is_perm4 perm"
  then have "set perm = {0, 1, 2, 3}" by (simp add: is_perm4_def)
  moreover have "j \<in> {0, 1, 2, 3} \<longleftrightarrow> j < 4" by (simp add: all_less4[symmetric]) linarith
  ultimately show ?thesis by simp
qed

lemma perm4_distinct: "is_perm4 perm \<Longrightarrow> distinct perm"
proof -
  assume "is_perm4 perm"
  then have len: "length perm = 4" and set: "set perm = {0, 1, 2, 3}"
    by (simp_all add: is_perm4_def)
  have "card (set perm) = 4" unfolding set by simp
  with len show "distinct perm" by (simp add: card_distinct)
qed

lemma perm4_all:
  assumes "is_perm4 perm"
  shows "(\<forall>i<4. Q (perm ! i)) = (\<forall>i<4. Q i)"
proof (intro iffI allI impI)
  fix j :: nat assume q: "\<forall>i<4. Q (perm ! i)" and "j < 4"
  then have "j \<in> set perm" using perm4_set[OF assms] by simp
  then obtain i where "i < length perm" "perm ! i = j" by (auto simp: in_set_conv_nth)
  moreover have "length perm = 4" using assms by (simp add: is_perm4_def)
  ultimately show "Q j" using q by auto
next
  have len: "length perm = 4" using assms by (simp add: is_perm4_def)
  fix i :: nat assume q: "\<forall>i<4. Q i" and "i < 4"
  then have "perm ! i \<in> set perm" using len by simp
  then have "perm ! i < 4" using perm4_set[OF assms] by simp
  with q show "Q (perm ! i)" by simp
qed

lemma perm4_fix3_all:
  assumes "is_perm4 perm" "perm ! 3 = 3"
  shows "(\<forall>i<3. Q (perm ! i)) = (\<forall>i<3. Q i)"
proof (intro iffI allI impI)
  have len: "length perm = 4" using assms(1) by (simp add: is_perm4_def)
  fix j :: nat assume q: "\<forall>i<3. Q (perm ! i)" and j: "j < 3"
  then have "j \<in> set perm" using perm4_set[OF assms(1), of j] by simp
  then obtain i where i: "i < 4" "perm ! i = j" using len by (auto simp: in_set_conv_nth)
  with assms(2) j have "i \<noteq> 3" by auto
  with i have "i < 3" by simp
  with q i show "Q j" by auto
next
  have len: "length perm = 4" using assms(1) by (simp add: is_perm4_def)
  fix i :: nat assume q: "\<forall>i<3. Q i" and i: "i < 3"
  then have "perm ! i \<in> set perm" using len by simp
  then have "perm ! i < 4" using perm4_set[OF assms(1)] by simp
  moreover have "perm ! i \<noteq> 3"
  proof
    assume "perm ! i = 3"
    then have "perm ! i = perm ! 3" using assms(2) by simp
    then have "i = 3" using perm4_distinct[OF assms(1)] len i
      by (simp add: nth_eq_iff_index_eq)
    with i show False by simp
  qed
  ultimately have "perm ! i < 3" by simp
  with q show "Q (perm ! i)" by simp
qed

lemma permute_nth:
  "is_perm4 perm \<Longrightarrow> i < 4 \<Longrightarrow> permute perm xs ! i = xs ! (perm ! i)"
  by (simp add: permute_def is_perm4_def)

lemma permuted_poses:
  assumes perm: "is_perm4 perm" "perm ! 3 = 3"
  shows "{pose. pose_R pose \<in> Rot \<and>
            (\<forall>i<4. residual_even pose (permute perm p ! i) (permute perm x ! i) (permute perm X ! i) = 0) \<and>
            (\<forall>i<3. residual_odd pose (permute perm p ! i) (permute perm x ! i) (permute perm X ! i) = 0)}
       = {pose. pose_R pose \<in> Rot \<and>
            (\<forall>i<4. residual_even pose (p ! i) (x ! i) (X ! i) = 0) \<and>
            (\<forall>i<3. residual_odd pose (p ! i) (x ! i) (X ! i) = 0)}"
proof (rule Collect_cong)
  fix pose
  have e: "(\<forall>i<4. residual_even pose (permute perm p ! i) (permute perm x ! i) (permute perm X ! i) = 0)
         = (\<forall>i<4. residual_even pose (p ! (perm ! i)) (x ! (perm ! i)) (X ! (perm ! i)) = 0)"
    by (simp add: permute_nth[OF perm(1)])
  have o: "(\<forall>i<3. residual_odd pose (permute perm p ! i) (permute perm x ! i) (permute perm X ! i) = 0)
         = (\<forall>i<3. residual_odd pose (p ! (perm ! i)) (x ! (perm ! i)) (X ! (perm ! i)) = 0)"
    by (simp add: permute_nth[OF perm(1)])
  show "(pose_R pose \<in> Rot \<and>
            (\<forall>i<4. residual_even pose (permute perm p ! i) (permute perm x ! i) (permute perm X ! i) = 0) \<and>
            (\<forall>i<3. residual_odd pose (permute perm p ! i) (permute perm x ! i) (permute perm X ! i) = 0))
       = (pose_R pose \<in> Rot \<and>
            (\<forall>i<4. residual_even pose (p ! i) (x ! i) (X ! i) = 0) \<and>
            (\<forall>i<3. residual_odd pose (p ! i) (x ! i) (X ! i) = 0))"
    unfolding e o
    using perm4_all[OF perm(1), of "\<lambda>j. residual_even pose (p ! j) (x ! j) (X ! j) = 0"]
      perm4_fix3_all[OF perm, of "\<lambda>j. residual_odd pose (p ! j) (x ! j) (X ! j) = 0"]
    by simp
qed

lemma identity_solver_solves: "solves {identity3} pass_on identity_solver cayley AR"
  by (auto simp add: solves_def identity_solver_def pass_on_def cayley_zero)

lemma swapped_build:
  "build_A (permute swap01 sample_p) (permute swap01 sample_x)
     (permute swap01 sample_X) = Inr swapped_A"
  by (simp add: build_A_rows permute_def swap01_def sample_p_def sample_x_def sample_X_def swapped_A_def
      sample_A_def row_even_def row_odd_def)

lemma swapped_det: "det4 (leading_block swapped_A) = 125"
  by (simp add: swapped_A_def sample_A_def leading_block_def block_def det4_def upt4 cofactor_def
      minor_def drop_nth_def)

lemma twisted_build: "build_A twisted_p sample_x sample_X = Inr twisted_A"
  by (simp add: build_A_rows twisted_p_def sample_x_def sample_X_def twisted_A_def sample_A_def
      row_even_def row_odd_def)

lemma twisted_det: "det4 (leading_block twisted_A) = - 1625"
  by (simp add: twisted_A_def sample_A_def leading_block_def block_def det4_def upt4 cofactor_def
      minor_def drop_nth_def)

lemma twisted_inverse: "inverse4 (leading_block twisted_A) = twisted_B"
  unfolding inverse4_def twisted_det
  by (simp add: twisted_A_def sample_A_def twisted_B_def leading_block_def block_def upt4
      cofactor_def minor_def drop_nth_def)

lemma twisted_schur: "schur twisted_A twisted_B = twisted_AR"
  by (simp add: twisted_A_def sample_A_def twisted_B_def twisted_AR_def schur_def block_def
      mat_mul_def mat_sub_def col_def ncols_def dot_def upt_rec)

lemma twisted_run:
  "gp4ps pass_on identity_solver cayley twisted_p sample_x sample_X [] = (Inr 0, [])"
proof -
  have s: "identity_solver (pass_on (schur twisted_A (inverse4 (leading_block twisted_A))))
           = (0, \<lambda>k. Vec3 0 0 0)"
    by (simp add: twisted_inverse twisted_schur pass_on_def identity_solver_def twisted_AR_def
        mv_def dot_def data_def identity3_def)
  show ?thesis
    by (simp add: gp4ps_closed[where solver = identity_solver and reduce = pass_on,
          OF twisted_build s])
qed

lemma moved_build:
  "build_A (permute swap03 twisted_p) (permute swap03 sample_x)
     (permute swap03 sample_X) = Inr moved_A"
  by (simp add: build_A_rows permute_def swap03_def twisted_p_def sample_x_def sample_X_def
      moved_A_def twisted_A_def sample_A_def row_even_def row_odd_def)

lemma moved_det: "det4 (leading_block moved_A) = - 180"
  by (simp add: moved_A_def twisted_A_def sample_A_def leading_block_def block_def det4_def upt4
      cofactor_def minor_def drop_nth_def)

lemma moved_inverse: "inverse4 (leading_block moved_A) = moved_B"
  unfolding inverse4_def moved_det
  by (simp add: moved_A_def twisted_A_def sample_A_def moved_B_def leading_block_def block_def
      upt4 cofactor_def minor_def drop_nth_def)

lemma moved_schur: "schur moved_A moved_B = moved_AR"
  by (simp add: moved_A_def twisted_A_def sample_A_def moved_B_def moved_AR_def schur_def
      block_def mat_mul_def mat_sub_def col_def ncols_def dot_def upt_rec)

lemma moved_run:
  "gp4ps pass_on identity_solver cayley (permute swap03 twisted_p)
     (permute swap03 sample_x) (permute swap03 sample_X) [] = (Inr 1, [identity_pose])"
proof -
  have s: "identity_solver (pass_on (schur moved_A (inverse4 (leading_block moved_A))))
           = (1, \<lambda>k. Vec3 0 0 0)"
    by (simp add: moved_inverse moved_schur pass_on_def identity_solver_def moved_AR_def
        mv_def dot_def data_def identity3_def)
  have "make_pose cayley moved_A moved_B (Vec3 0 0 0) = identity_pose"
    by (simp add: make_pose_def cayley_zero back_substitute_def moved_A_def twisted_A_def
        sample_A_def moved_B_def block_def mv_def mat_neg_def dot_def data_def identity3_def
        identity_pose_def)
  then show ?thesis
    by (simp add: gp4ps_closed[where solver = identity_solver and reduce = pass_on,
          OF moved_build s] moved_inverse)
qed

text \<open>
  C7. Take routines that solve the reduced system over a set \<open>Rot\<close> of matrices: the
  matrices rebuilt from the roots are exactly the members of \<open>Rot\<close> with
  \<open>AR * vec(R) = 0\<close>. Take a relabelling of the four correspondences that leaves the
  fourth in its place, applied to \<open>p\<close>, \<open>x\<close> and \<open>X\<close> alike, and let the leading
  block be invertible before and after it. Then the call returns the same set of poses
  before and after the relabelling. (The poses are those with \<open>R\<close> in \<open>Rot\<close> for
  which the rows 0 to 6 vanish; a relabelling that moves the fourth correspondence
  changes which equation is left out.)
\<close>

theorem permutation_fixing_last:
  assumes "is_perm4 perm" "perm ! 3 = 3"
    and "build_A p x X = Inr A"
    and "det4 (leading_block A) \<noteq> 0"
    and "build_A (permute perm p) (permute perm x) (permute perm X) = Inr A'"
    and "det4 (leading_block A') \<noteq> 0"
    and "solves Rot reduce solver cayley_param (schur A (inverse4 (leading_block A)))"
    and "solves Rot reduce solver cayley_param (schur A' (inverse4 (leading_block A')))"
  shows "gp4ps_poses reduce solver cayley_param (permute perm p) (permute perm x) (permute perm X)
         = gp4ps_poses reduce solver cayley_param p x X"
  unfolding gp4ps_poses_char[where solver = solver and reduce = reduce, OF assms(3,4,7)]
    gp4ps_poses_char[where solver = solver and reduce = reduce, OF assms(5,6,8)]
  using assms(1,2) by (rule permuted_poses)

text \<open>The configuration with the correspondences 0 and 1 exchanged.\<close>

theorem permutation_fixing_last_witness:
  "gp4ps_poses pass_on identity_solver cayley (permute swap01 sample_p)
     (permute swap01 sample_x) (permute swap01 sample_X) = {identity_pose}"
proof -
  have "is_perm4 swap01" by (auto simp: is_perm4_def swap01_def)
  moreover have "swap01 ! 3 = 3" by (simp add: swap01_def)
  moreover have "det4 (leading_block sample_A) \<noteq> 0" by (simp add: sample_det)
  moreover have "det4 (leading_block swapped_A) \<noteq> 0" by (simp add: swapped_det)
  ultimately have "gp4ps_poses pass_on identity_solver cayley (permute swap01 sample_p)
     (permute swap01 sample_x) (permute swap01 sample_X)
     = gp4ps_poses pass_on identity_solver cayley sample_p sample_x sample_X"
    using permutation_fixing_last[where solver = identity_solver and reduce = pass_on
        and cayley_param = cayley and Rot = "{identity3}" and perm = swap01,
        OF _ _ sample_build _ swapped_build _ identity_solver_solves identity_solver_solves]
    by blast
  then show ?thesis by (simp add: gp4ps_poses_def sample_identity_run)
qed

text \<open>
  Whatever the routines are, as long as they solve both reduced systems over a set of
  matrices that holds the identity: after exchanging the correspondences 0 and 3 of the
  configuration with \<open>p[0]\<close> changed, the identity pose is among the returned poses,
  and before the exchange it is not, since it violates the second equation of
  correspondence 0.
\<close>

lemma relabelled_pose_sets_differ:
  assumes "identity3 \<in> Rot"
    and "solves Rot reduce solver cayley_param (schur twisted_A (inverse4 (leading_block twisted_A)))"
    and "solves Rot reduce solver cayley_param (schur moved_A (inverse4 (leading_block moved_A)))"
  shows "identity_pose \<in> gp4ps_poses reduce solver cayley_param (permute swap03 twisted_p)
            (permute swap03 sample_x) (permute swap03 sample_X)"
    and "identity_pose \<notin> gp4ps_poses reduce solver cayley_param twisted_p sample_x sample_X"
proof -
  have dm: "det4 (leading_block moved_A) \<noteq> 0" by (simp add: moved_det)
  have dt: "det4 (leading_block twisted_A) \<noteq> 0" by (simp add: twisted_det)
  show "identity_pose \<in> gp4ps_poses reduce solver cayley_param (permute swap03 twisted_p)
            (permute swap03 sample_x) (permute swap03 sample_X)"
    unfolding gp4ps_poses_char[where solver = solver and reduce = reduce, OF moved_build dm assms(3)]
    using assms(1)
    by (simp add: all_less3 all_less4 permute_def swap03_def twisted_p_def sample_x_def
        sample_X_def identity_pose_def identity3_def residual_even_def residual_odd_def
        offset_def rotate_def)
  have "residual_odd identity_pose (twisted_p ! 0) (sample_x ! 0) (sample_X ! 0) = - 35"
    by (simp add: twisted_p_def sample_x_def sample_X_def identity_pose_def identity3_def
        residual_odd_def offset_def rotate_def)
  then have "\<not> (\<forall>i<3. residual_odd identity_pose (twisted_p ! i) (sample_x ! i) (sample_X ! i) = 0)"
    by (simp add: all_less3)
  then show "identity_pose \<notin> gp4ps_poses reduce solver cayley_param twisted_p sample_x sample_X"
    unfolding gp4ps_poses_char[where solver = solver and reduce = reduce, OF twisted_build dt assms(2)]
    by simp
qed

text \<open>
  Exchanging the correspondences 0 and 3 of the configuration with \<open>p[0]\<close> changed:
  both leading blocks are invertible and the routines solve both reduced systems over
  the set that holds the identity alone, yet the relabelled call returns the identity
  pose and the original call returns nothing.
\<close>

theorem permutation_counterexample:
  "is_perm4 swap03 \<and>
   build_A twisted_p sample_x sample_X = Inr twisted_A \<and>
   det4 (leading_block twisted_A) \<noteq> 0 \<and>
   build_A (permute swap03 twisted_p) (permute swap03 sample_x)
     (permute swap03 sample_X) = Inr moved_A \<and>
   det4 (leading_block moved_A) \<noteq> 0 \<and>
   solves {identity3} pass_on identity_solver cayley (schur twisted_A (inverse4 (leading_block twisted_A))) \<and>
   solves {identity3} pass_on identity_solver cayley (schur moved_A (inverse4 (leading_block moved_A))) \<and>
   gp4ps_poses pass_on identity_solver cayley (permute swap03 twisted_p)
     (permute swap03 sample_x) (permute swap03 sample_X) = {identity_pose} \<and>
   gp4ps_poses pass_on identity_solver cayley twisted_p sample_x sample_X = {}"
proof -
  have "is_perm4 swap03" by (auto simp: is_perm4_def swap03_def)
  then show ?thesis
    by (simp add: twisted_build twisted_det moved_build moved_det identity_solver_solves
        gp4ps_poses_def twisted_run moved_run)
qed

end
